theory Spec2Isabelle
  imports Complex_Main "HOL-Library.Word" "HOL-Library.Multiset"
begin

unbundle bit_operations_syntax

section \<open>Deterministic password generator (src/utils/pass-generator.ts)\<close>

text \<open>
  The generator is one asynchronous pipeline: salt derivation, PBKDF2 key stretching,
  mapping of key bytes to characters, and a Fisher-Yates shuffle driven by HMAC output.
  The cryptographic primitives, the text encoder and Unicode normalisation are services of
  the host (Web Crypto, \<^verbatim>\<open>TextEncoder\<close>, \<^verbatim>\<open>String.prototype.normalize\<close>); they are not code
  of the repository and enter the model as the fields of a \<open>platform\<close> record, together
  with the engine's limit on the size of an array.
\<close>

subsection \<open>Data\<close>

type_synonym byte = "8 word"
type_synonym bytes = "byte list"

text \<open>A JavaScript string is a sequence of UTF-16 code units.\<close>

type_synonym code_unit = "16 word"
type_synonym jsstring = "code_unit list"

text \<open>A string literal of the source (ASCII only) as a JavaScript string.\<close>

definition lit :: "string \<Rightarrow> jsstring" where
  "lit s = map (\<lambda>c. of_nat (of_char c)) s"

text \<open>
  A JavaScript number: a finite value, \<^verbatim>\<open>NaN\<close>, or an infinity. The requested length and
  the rotation number are numbers; they may be fractional or not finite (the command line
  passes \<^verbatim>\<open>Number(text)\<close> unchecked). Finite values are rationals, which include every
  finite double; the two zeros are not told apart, and no operation below does.
  The iteration count is kept as an integer: the source compares it with 100,000 and hands
  it to the host.
\<close>

datatype number = Finite rat | NaN | PosInfinity | NegInfinity

text \<open>The relational operator \<^verbatim>\<open><\<close>: false whenever an operand is \<^verbatim>\<open>NaN\<close>.\<close>

fun lt_num :: "number \<Rightarrow> number \<Rightarrow> bool" where
  "lt_num NaN y = False"
| "lt_num x NaN = False"
| "lt_num x NegInfinity = False"
| "lt_num PosInfinity y = False"
| "lt_num NegInfinity y = True"
| "lt_num x PosInfinity = True"
| "lt_num (Finite a) (Finite b) = (a < b)"

text \<open>\<^verbatim>\<open>Number.MAX_VALUE\<close>, the largest finite double.\<close>

definition MAX_VALUE :: rat where
  "MAX_VALUE = (2 ^ 53 - 1) * 2 ^ 971"

text \<open>
  \<^verbatim>\<open>x * c\<close> for a positive finite constant \<open>c\<close> that is a power of two (the source multiplies
  by 16): exact on doubles, and an infinity when the product leaves the finite range.
\<close>

fun mul_num :: "number \<Rightarrow> rat \<Rightarrow> number" where
  "mul_num (Finite r) c =
     (if MAX_VALUE < r * c then PosInfinity
      else if r * c < - MAX_VALUE then NegInfinity
      else Finite (r * c))"
| "mul_num NaN c = NaN"
| "mul_num PosInfinity c = PosInfinity"
| "mul_num NegInfinity c = NegInfinity"

text \<open>\<^verbatim>\<open>Math.max(x, y)\<close>: \<^verbatim>\<open>NaN\<close> when an argument is \<^verbatim>\<open>NaN\<close>.\<close>

fun max_num :: "number \<Rightarrow> number \<Rightarrow> number" where
  "max_num NaN y = NaN"
| "max_num x NaN = NaN"
| "max_num x y = (if lt_num x y then y else x)"

text \<open>The argument of \<^verbatim>\<open>String.prototype.normalize\<close>.\<close>

datatype form = NFC | NFD | NFKC | NFKD

text \<open>
  \<^verbatim>\<open>SubtleCrypto\<close> as the code uses it: \<open>digest\<close> is SHA-256, \<open>sign key msg\<close> is
  HMAC-SHA-256 under the imported raw key, \<open>deriveBits password salt iterations bits\<close> is
  PBKDF2 with SHA-256 on the imported raw password. Each primitive is a function of its
  inputs that answers every call; a provider that refuses a call is not modelled.
\<close>

record SubtleCrypto =
  digest :: "bytes \<Rightarrow> bytes"
  sign :: "bytes \<Rightarrow> bytes \<Rightarrow> bytes"
  deriveBits :: "bytes \<Rightarrow> bytes \<Rightarrow> int \<Rightarrow> number \<Rightarrow> bytes"

text \<open>
  The host. \<open>subtle\<close> is \<open>None\<close> when neither \<^verbatim>\<open>globalThis.crypto.subtle\<close> nor Node's
  \<^verbatim>\<open>webcrypto\<close> can be found. \<open>shortest_digits\<close> is the engine's number-to-string
  conversion of a finite number that is not a safe integer (shortest digits that read back
  as the same double, exponent form from \<open>1e21\<close>). \<open>capacity\<close> is the largest number of
  elements an array of the engine can hold: \<^verbatim>\<open>push\<close> on an array of that size throws
  \<^verbatim>\<open>RangeError\<close>. Like every array length it is a number with an integer value.
\<close>

record platform =
  str_normalize :: "form \<Rightarrow> jsstring \<Rightarrow> jsstring"
  encode :: "jsstring \<Rightarrow> bytes"
  shortest_digits :: "rat \<Rightarrow> jsstring"
  capacity :: int
  subtle :: "SubtleCrypto option"

text \<open>
  Every \<^verbatim>\<open>throw new Error(msg)\<close> of the source is a value \<open>Error msg\<close>; \<open>RangeError\<close> is the
  engine's exception for an array that cannot grow.
\<close>

datatype error = Error string | RangeError

text \<open>
  The source has one error class and three throw sites. The three kinds of the error
  taxonomy are the three messages.
\<close>

definition ValidationError :: error where
  "ValidationError = Error ''length must be at least 8''"

definition ConfigurationError :: error where
  "ConfigurationError = Error ''iterations must be >= 100,000''"

definition EnvironmentError :: error where
  "EnvironmentError =
     Error ''Web Crypto API not available. In Node, use v18+; in browser/Tauri, use a modern runtime.''"

subsection \<open>Asynchronous computations with a log of primitive calls\<close>

text \<open>
  The observable effects of the pipeline are its invocations of the host's primitives.
  A computation yields its outcome (a thrown error or a value) and the calls it made, in
  order.
\<close>

datatype call =
  Digest bytes
| Sign bytes bytes
| DeriveBits bytes bytes int number

type_synonym 'a async = "(error + 'a) \<times> call list"

definition resolve :: "'a \<Rightarrow> 'a async" where
  "resolve x = (Inr x, [])"

definition reject :: "error \<Rightarrow> 'a async" where
  "reject e = (Inl e, [])"

definition invoke :: "call \<Rightarrow> 'a \<Rightarrow> 'a async" where
  "invoke c x = (Inr x, [c])"

definition await :: "'a async \<Rightarrow> ('a \<Rightarrow> 'b async) \<Rightarrow> 'b async" where
  "await m f =
     (case m of
        (Inl e, cs) \<Rightarrow> (Inl e, cs)
      | (Inr x, cs) \<Rightarrow> (case f x of (r, cs') \<Rightarrow> (r, cs @ cs')))"

text \<open>What a provider answers to a call.\<close>

fun respond :: "SubtleCrypto \<Rightarrow> call \<Rightarrow> bytes" where
  "respond s (Digest data) = digest s data"
| "respond s (Sign key msg) = sign s key msg"
| "respond s (DeriveBits password salt iterations bits) = deriveBits s password salt iterations bits"

subsection \<open>Environment helpers and utilities\<close>

definition getSubtle :: "platform \<Rightarrow> SubtleCrypto async" where
  "getSubtle p = (case subtle p of Some s \<Rightarrow> resolve s | None \<Rightarrow> reject EnvironmentError)"

text \<open>
  \<^verbatim>\<open>String.prototype.trim\<close> removes leading and trailing WhiteSpace and LineTerminator
  code points.
\<close>

definition isWhiteSpace :: "code_unit \<Rightarrow> bool" where
  "isWhiteSpace c =
     (c \<in> {0x0009, 0x000A, 0x000B, 0x000C, 0x000D, 0x0020, 0x00A0, 0x1680,
            0x2028, 0x2029, 0x202F, 0x205F, 0x3000, 0xFEFF}
      \<or> (0x2000 \<le> c \<and> c \<le> 0x200A))"

definition trim :: "jsstring \<Rightarrow> jsstring" where
  "trim s = rev (dropWhile isWhiteSpace (rev (dropWhile isWhiteSpace s)))"

definition normText :: "platform \<Rightarrow> jsstring \<Rightarrow> jsstring" where
  "normText p s = trim (str_normalize p NFKC s)"

definition concatBytes :: "bytes list \<Rightarrow> bytes" where
  "concatBytes arrays = concat arrays"

definition sha256 :: "platform \<Rightarrow> bytes \<Rightarrow> bytes async" where
  "sha256 p data = await (getSubtle p) (\<lambda>s. invoke (Digest data) (digest s data))"

definition hmacSha256 :: "platform \<Rightarrow> bytes \<Rightarrow> bytes \<Rightarrow> bytes async" where
  "hmacSha256 p keyBytes msg =
     await (getSubtle p) (\<lambda>s. invoke (Sign keyBytes msg) (sign s keyBytes msg))"

definition pbkdf2 :: "platform \<Rightarrow> jsstring \<Rightarrow> bytes \<Rightarrow> int \<Rightarrow> number \<Rightarrow> bytes async" where
  "pbkdf2 p master salt iterations bits =
     await (getSubtle p) (\<lambda>s.
       let password = encode p (normText p master)
       in invoke (DeriveBits password salt iterations bits)
            (deriveBits s password salt iterations bits))"

text \<open>
  A read \<^verbatim>\<open>a[i]\<close> of a typed array: \<^verbatim>\<open>undefined\<close> (here \<open>None\<close>) outside the array.
\<close>

definition read_at :: "'a list \<Rightarrow> nat \<Rightarrow> 'a option" where
  "read_at a i = (if i < length a then Some (a ! i) else None)"

text \<open>
  \<^verbatim>\<open>keyBytes[i % keyBytes.length]\<close>: for an empty array the index is \<^verbatim>\<open>NaN\<close> and the read
  is \<^verbatim>\<open>undefined\<close>.
\<close>

definition keyByte :: "bytes \<Rightarrow> nat \<Rightarrow> byte option" where
  "keyByte keyBytes i = (if length keyBytes = 0 then None else read_at keyBytes (i mod length keyBytes))"

text \<open>\<^verbatim>\<open>b & 0xff\<close>; \<^verbatim>\<open>undefined & 0xff\<close> is 0.\<close>

definition bytesToInt :: "byte option \<Rightarrow> nat" where
  "bytesToInt b = (case b of None \<Rightarrow> 0 | Some w \<Rightarrow> unat (w AND 0xff))"

subsection \<open>Character policy\<close>

definition LOWER :: string where
  "LOWER = ''abcdefghijklmnopqrstuvwxyz''"

definition UPPER :: string where
  "UPPER = ''ABCDEFGHIJKLMNOPQRSTUVWXYZ''"

definition DIGITS :: string where
  "DIGITS = ''0123456789''"

definition SYMBOLS :: string where
  "SYMBOLS = ''!@#$%^&*()-_=+[]{};:,.?/'' @ [CHR 0x5C] @ ''|~''"

definition ALLSETS :: "string list" where
  "ALLSETS = [LOWER, UPPER, DIGITS, SYMBOLS]"

definition COMBINED :: string where
  "COMBINED = concat ALLSETS"

subsection \<open>Salt derivation\<close>

text \<open>
  \<^verbatim>\<open>String(number)\<close>. A safe integer (magnitude below \<open>2^53\<close>) is printed as its decimal
  digits, with a minus sign below zero; \<^verbatim>\<open>NaN\<close> and the infinities have their names; every
  other finite number is printed by the engine's shortest-digits conversion.
\<close>

fun decimal :: "nat \<Rightarrow> string" where
  "decimal n =
     (if n < 10 then [char_of (48 + n)] else decimal (n div 10) @ [char_of (48 + n mod 10)])"

fun String_of :: "platform \<Rightarrow> number \<Rightarrow> jsstring" where
  "String_of p NaN = lit ''NaN''"
| "String_of p PosInfinity = lit ''Infinity''"
| "String_of p NegInfinity = lit ''-Infinity''"
| "String_of p (Finite r) =
     (if r = of_int \<lfloor>r\<rfloor> \<and> \<bar>r\<bar> < 2 ^ 53
      then lit (if r < 0 then CHR ''-'' # decimal (nat (- \<lfloor>r\<rfloor>)) else decimal (nat \<lfloor>r\<rfloor>))
      else shortest_digits p r)"

definition deterministicSalt :: "platform \<Rightarrow> jsstring \<Rightarrow> number \<Rightarrow> bytes async" where
  "deterministicSalt p context number =
     (let tag = lit ''pwgen-salt-v1'';
          payload = tag @ lit ''|'' @ normText p context @ lit ''|''
                      @ normText p (String_of p number)
      in await (sha256 p (encode p payload)) (\<lambda>hash. resolve (take 16 hash)))"

subsection \<open>Deterministic shuffle (Fisher-Yates on HMAC output)\<close>

text \<open>
  The array is mutated in place by the source; the model returns the updated array. An
  array slot holds a one-character string or \<^verbatim>\<open>undefined\<close> (\<open>None\<close>). Besides its slots the
  array object can carry a property named \<^verbatim>\<open>NaN\<close>, which is the fourth component \<open>nan\<close> of
  the loop state (\<open>None\<close> while the property is absent or \<^verbatim>\<open>undefined\<close>).

  One pass of the loop body at index \<open>i\<close>, on the state \<open>(prf, j, arr, nan)\<close>. When the
  stream is used up it is extended by \<^verbatim>\<open>hmacSha256(keyBytes, prf ++ "shuffle-next")\<close>. If the
  read \<^verbatim>\<open>prf[j]\<close> is \<^verbatim>\<open>undefined\<close> then \<^verbatim>\<open>k\<close> is \<^verbatim>\<open>NaN\<close>: \<^verbatim>\<open>arr[i]\<close> receives the value of the
  property \<^verbatim>\<open>arr[NaN]\<close>, and the write \<^verbatim>\<open>arr[NaN] = tmp\<close> stores the old \<^verbatim>\<open>arr[i]\<close> in that
  property and touches no slot.
\<close>

definition shuffle_step ::
  "platform \<Rightarrow> bytes \<Rightarrow> nat \<Rightarrow> bytes \<times> nat \<times> 'a option list \<times> 'a option
     \<Rightarrow> (bytes \<times> nat \<times> 'a option list \<times> 'a option) async" where
  "shuffle_step p keyBytes i st =
     (case st of (prf, j, arr, nan) \<Rightarrow>
        await
          (if j \<ge> length prf
           then await (hmacSha256 p keyBytes (concatBytes [prf, encode p (lit ''shuffle-next'')]))
                  (\<lambda>prf'. resolve (prf', 0))
           else resolve (prf, j))
          (\<lambda>(prf, j).
             resolve
               (case read_at prf j of
                  None \<Rightarrow> (prf, j + 1, arr[i := nan], arr ! i)
                | Some b \<Rightarrow>
                    (let k = unat b mod (i + 1)
                     in (prf, j + 1, arr[i := arr ! k, k := arr ! i], nan)))))"

text \<open>\<^verbatim>\<open>for (let i = n; i > 0; i--)\<close>, by recursion on \<open>i\<close>.\<close>

primrec shuffle_loop ::
  "platform \<Rightarrow> bytes \<Rightarrow> nat \<Rightarrow> bytes \<times> nat \<times> 'a option list \<times> 'a option
     \<Rightarrow> (bytes \<times> nat \<times> 'a option list \<times> 'a option) async" where
  "shuffle_loop p keyBytes 0 st = resolve st"
| "shuffle_loop p keyBytes (Suc n) st =
     await (shuffle_step p keyBytes (Suc n) st) (shuffle_loop p keyBytes n)"

definition deterministicShuffle ::
  "platform \<Rightarrow> 'a option list \<Rightarrow> bytes \<Rightarrow> 'a option list async" where
  "deterministicShuffle p arr keyBytes =
     await (hmacSha256 p keyBytes (encode p (lit ''shuffle-v1''))) (\<lambda>prf.
     await (shuffle_loop p keyBytes (length arr - 1) (prf, 0, arr, None)) (\<lambda>(prf, j, arr, nan).
     resolve arr))"

subsection \<open>Mapping bytes to a password\<close>

text \<open>
  The two loops of the mapper, each \<^verbatim>\<open>out.push(...)\<close> failing with \<^verbatim>\<open>RangeError\<close> on an
  array that already holds \<open>cap\<close> elements. The first runs over the four classes; the
  second runs while \<^verbatim>\<open>i < length\<close>, so for a fractional length it makes one more pass than
  the length's integer part, and for an infinite length it runs until the array is full.
\<close>

function class_loop :: "int \<Rightarrow> bytes \<Rightarrow> nat \<Rightarrow> string \<Rightarrow> error + string" where
  "class_loop cap keyBytes i out =
     (if i < length ALLSETS
      then (let set = ALLSETS ! i; b = keyByte keyBytes i
            in if int (length out) < cap
               then class_loop cap keyBytes (i + 1) (out @ [set ! (bytesToInt b mod length set)])
               else Inl RangeError)
      else Inr out)"
  by pat_completeness auto
termination
  by (relation "measure (\<lambda>(cap, keyBytes, i, out). length ALLSETS - i)") auto

function fill_loop :: "int \<Rightarrow> bytes \<Rightarrow> number \<Rightarrow> nat \<Rightarrow> string \<Rightarrow> error + string" where
  "fill_loop cap keyBytes len i out =
     (if lt_num (Finite (of_nat i)) len
      then (let b = keyByte keyBytes i
            in if int (length out) < cap
               then fill_loop cap keyBytes len (i + 1)
                      (out @ [COMBINED ! (bytesToInt b mod length COMBINED)])
               else Inl RangeError)
      else Inr out)"
  by pat_completeness auto
termination
  by (relation "measure (\<lambda>(cap, keyBytes, len, i, out). nat (cap - int (length out)))") auto

definition mapBytesToPassword :: "int \<Rightarrow> bytes \<Rightarrow> number \<Rightarrow> error + string" where
  "mapBytesToPassword cap keyBytes len =
     (if lt_num len (Finite 8) then Inl (Error ''length must be at least 8'')
      else (case class_loop cap keyBytes 0 [] of
              Inl e \<Rightarrow> Inl e
            | Inr out \<Rightarrow> fill_loop cap keyBytes len (length ALLSETS) out))"

subsection \<open>Public API\<close>

record GenerateOptions =
  opt_context :: "jsstring option"
  opt_length :: "number option"
  opt_iterations :: "int option"

text \<open>\<^verbatim>\<open>s.split("")\<close> on a string of ASCII characters, and \<^verbatim>\<open>arr.join("")\<close>, which renders
  \<^verbatim>\<open>undefined\<close> as the empty string.\<close>

definition split :: "string \<Rightarrow> char option list" where
  "split s = map Some s"

definition join :: "char option list \<Rightarrow> string" where
  "join arr = concat (map (\<lambda>x. case x of None \<Rightarrow> [] | Some c \<Rightarrow> [c]) arr)"

text \<open>
  \<^verbatim>\<open>arr.slice(0, e)\<close>. The end is converted to an integer by truncation (\<^verbatim>\<open>NaN\<close> becomes 0);
  a negative end counts from the end of the array.
\<close>

definition to_integer :: "rat \<Rightarrow> int" where
  "to_integer r = (if 0 \<le> r then \<lfloor>r\<rfloor> else \<lceil>r\<rceil>)"

fun slice0 :: "'a list \<Rightarrow> number \<Rightarrow> 'a list" where
  "slice0 arr NaN = []"
| "slice0 arr PosInfinity = arr"
| "slice0 arr NegInfinity = []"
| "slice0 arr (Finite r) =
     (let e = to_integer r
      in if e < 0 then take (nat (int (length arr) + e)) arr else take (nat e) arr)"

text \<open>The operator \<^verbatim>\<open>??\<close> on an optional field.\<close>

definition nullish :: "'a option \<Rightarrow> 'a \<Rightarrow> 'a" where
  "nullish x d = (case x of None \<Rightarrow> d | Some v \<Rightarrow> v)"

definition generatePassword ::
  "platform \<Rightarrow> jsstring \<Rightarrow> number \<Rightarrow> GenerateOptions \<Rightarrow> string async" where
  "generatePassword p masterPhrase number options =
     (let context = nullish (opt_context options) [];
          len = nullish (opt_length options) (Finite 20);
          iterations = nullish (opt_iterations options) 600000
      in if iterations < 100000 then reject (Error ''iterations must be >= 100,000'')
         else
           await (deterministicSalt p context number) (\<lambda>salt.
           await (pbkdf2 p masterPhrase salt iterations
                    (max_num (Finite 512) (mul_num len 16))) (\<lambda>keyBytes.
           (case mapBytesToPassword (capacity p) keyBytes len of
              Inl e \<Rightarrow> reject e
            | Inr s \<Rightarrow>
                await (deterministicShuffle p (split s) keyBytes) (\<lambda>initial.
                resolve (join (slice0 initial len)))))))"

text \<open>The presentation layer's slider (App): \<^verbatim>\<open>min={8} max={120}\<close>.\<close>

definition SLIDER_MAX :: int where
  "SLIDER_MAX = 120"

subsection \<open>A small concrete platform\<close>

text \<open>
  A stand-in host for evaluating the pipeline on concrete inputs. Its normaliser knows one
  compatibility mapping, the ligature U+FB01 to \<open>fi\<close>, which NFKC and NFKD apply and NFC and
  NFD do not; its encoder keeps the low byte of each code unit; its primitives are simple
  arithmetic on bytes, with the output sizes of SHA-256, HMAC-SHA-256 and PBKDF2; its
  arrays hold up to \<open>2^28 - 1\<close> elements; its shortest-digits conversion is a placeholder
  (no evaluation below prints a number that is not a safe integer).
\<close>

definition demo_normalize :: "form \<Rightarrow> jsstring \<Rightarrow> jsstring" where
  "demo_normalize f s =
     (if f = NFKC \<or> f = NFKD
      then concat (map (\<lambda>c. if c = 0xFB01 then [0x66, 0x69] else [c]) s)
      else s)"

definition demo_bits :: "number \<Rightarrow> nat" where
  "demo_bits bits = (case bits of Finite r \<Rightarrow> nat \<lfloor>r\<rfloor> | _ \<Rightarrow> 0)"

definition demo_subtle :: SubtleCrypto where
  "demo_subtle =
     \<lparr> digest = (\<lambda>data. map (\<lambda>i. of_nat (i + length data)) [0 ..< 32]),
       sign = (\<lambda>key msg. map (\<lambda>i. of_nat (7 * i + length key + length msg)) [0 ..< 32]),
       deriveBits = (\<lambda>password salt iterations bits.
          map (\<lambda>i. of_nat (37 * i + length password + length salt))
            [0 ..< demo_bits bits div 8]) \<rparr>"

definition demo :: platform where
  "demo = \<lparr> str_normalize = demo_normalize, encode = map ucast,
            shortest_digits = (\<lambda>r. []), capacity = 2 ^ 28 - 1, subtle = Some demo_subtle \<rparr>"

subsection \<open>What the theorems ask of the host\<close>

text \<open>
  Web Crypto is present and its HMAC-SHA-256 returns a digest. The digest of the real
  primitive has 32 bytes; the proofs need only that it is not empty, so that the shuffle
  always finds a stream byte to read.
\<close>

definition host_ok :: "platform \<Rightarrow> bool" where
  "host_ok p = (case subtle p of None \<Rightarrow> False | Some s \<Rightarrow> (\<forall>key msg. sign s key msg \<noteq> []))"

section \<open>Verification\<close>

subsection \<open>Running asynchronous computations\<close>

lemma await_Inr: "await (Inr x, cs) f = (fst (f x), cs @ snd (f x))"
  by (simp add: await_def split: prod.splits)

lemma await_Inl: "await (Inl e, cs) f = (Inl e, cs)"
  by (simp add: await_def)

lemma getSubtle_Some: "subtle p = Some s \<Longrightarrow> getSubtle p = (Inr s, [])"
  by (simp add: getSubtle_def resolve_def)

lemma getSubtle_None: "subtle p = None \<Longrightarrow> getSubtle p = (Inl EnvironmentError, [])"
  by (simp add: getSubtle_def reject_def)

lemma sha256_Some: "subtle p = Some s \<Longrightarrow> sha256 p d = (Inr (digest s d), [Digest d])"
  by (simp add: sha256_def getSubtle_Some await_Inr invoke_def)

lemma hmacSha256_Some:
  "subtle p = Some s \<Longrightarrow> hmacSha256 p k m = (Inr (sign s k m), [Sign k m])"
  by (simp add: hmacSha256_def getSubtle_Some await_Inr invoke_def)

lemma pbkdf2_Some:
  "subtle p = Some s \<Longrightarrow>
   pbkdf2 p master salt n bits =
     (Inr (deriveBits s (encode p (normText p master)) salt n bits),
      [DeriveBits (encode p (normText p master)) salt n bits])"
  by (simp add: pbkdf2_def getSubtle_Some await_Inr invoke_def Let_def)

lemma deterministicSalt_Some:
  "subtle p = Some s \<Longrightarrow>
   deterministicSalt p context number =
     (let payload = lit ''pwgen-salt-v1'' @ lit ''|'' @ normText p context @ lit ''|''
                      @ normText p (String_of p number)
      in (Inr (take 16 (digest s (encode p payload))), [Digest (encode p payload)]))"
  by (simp add: deterministicSalt_def sha256_Some await_Inr resolve_def Let_def)

subsection \<open>The shuffle permutes the array\<close>

lemma swap_mset:
  fixes arr :: "'a list"
  assumes "i < length arr" "k \<le> i"
  shows "mset (arr[i := arr ! k, k := arr ! i]) = mset arr"
  using assms mset_swap [of k arr i] by simp

lemma shuffle_step_ok:
  assumes "subtle p = Some s" "\<forall>k m. sign s k m \<noteq> []" "i < length arr"
  shows "\<exists>q' j' arr' cs.
           shuffle_step p keyBytes i (q, j, arr, nan) = (Inr (q', j', arr', nan), cs)
         \<and> mset arr' = mset arr"
proof (cases "j \<ge> length q")
  case True
  define q1 where "q1 = sign s keyBytes (concatBytes [q, encode p (lit ''shuffle-next'')])"
  have "q1 \<noteq> []" using assms(2) by (simp add: q1_def)
  then obtain b where b: "read_at q1 0 = Some b" by (cases q1) (simp_all add: read_at_def)
  have "unat b mod (i + 1) \<le> i" by (simp add: less_Suc_eq_le [symmetric])
  then have "mset (arr[i := arr ! (unat b mod (i + 1)), unat b mod (i + 1) := arr ! i]) = mset arr"
    using assms(3) by (rule swap_mset [rotated])
  then show ?thesis
    using True b assms(1)
    by (simp add: shuffle_step_def hmacSha256_Some await_Inr resolve_def q1_def Let_def)
next
  case False
  then obtain b where b: "read_at q j = Some b" by (simp add: read_at_def)
  have "unat b mod (i + 1) \<le> i" by (simp add: less_Suc_eq_le [symmetric])
  then have "mset (arr[i := arr ! (unat b mod (i + 1)), unat b mod (i + 1) := arr ! i]) = mset arr"
    using assms(3) by (rule swap_mset [rotated])
  then show ?thesis
    using False b
    by (simp add: shuffle_step_def await_Inr resolve_def Let_def)
qed

lemma shuffle_loop_ok:
  assumes "subtle p = Some s" "\<forall>k m. sign s k m \<noteq> []"
  shows "n \<le> length arr - 1 \<Longrightarrow>
     \<exists>q' j' arr' cs.
        shuffle_loop p keyBytes n (q, j, arr, nan) = (Inr (q', j', arr', nan), cs)
      \<and> mset arr' = mset arr"
proof (induction n arbitrary: q j arr)
  case 0
  then show ?case by (simp add: resolve_def)
next
  case (Suc n)
  then have "Suc n < length arr" by simp
  from shuffle_step_ok [OF assms this]
  obtain q1 j1 arr1 cs1 where
    st: "shuffle_step p keyBytes (Suc n) (q, j, arr, nan) = (Inr (q1, j1, arr1, nan), cs1)"
    and m1: "mset arr1 = mset arr" by blast
  from m1 have "length arr1 = length arr" by (rule mset_eq_length)
  with Suc.prems have "n \<le> length arr1 - 1" by simp
  from Suc.IH [OF this]
  obtain q2 j2 arr2 cs2 where
    lp: "shuffle_loop p keyBytes n (q1, j1, arr1, nan) = (Inr (q2, j2, arr2, nan), cs2)"
    and m2: "mset arr2 = mset arr1" by blast
  show ?case using st lp m1 m2 by (simp add: await_Inr)
qed

lemma deterministicShuffle_ok:
  assumes "subtle p = Some s" "\<forall>k m. sign s k m \<noteq> []"
  shows "\<exists>arr' cs. deterministicShuffle p arr keyBytes = (Inr arr', cs) \<and> mset arr' = mset arr"
proof -
  from shuffle_loop_ok [OF assms order_refl]
  obtain q2 j2 arr2 cs2 where
    lp: "shuffle_loop p keyBytes (length arr - 1)
           (sign s keyBytes (encode p (lit ''shuffle-v1'')), 0, arr, None)
           = (Inr (q2, j2, arr2, None), cs2)"
    and m2: "mset arr2 = mset arr" by blast
  show ?thesis using lp m2 assms(1)
    by (simp add: deterministicShuffle_def hmacSha256_Some await_Inr resolve_def)
qed

lemma shuffle_step_total:
  assumes "subtle p = Some s"
  shows "\<exists>x cs. shuffle_step p keyBytes i st = (Inr x, cs)"
proof -
  obtain q j arr nan where st: "st = (q, j, arr, nan)" by (rule prod_cases4)
  show ?thesis
  proof (cases "length q \<le> j")
    case True
    with assms show ?thesis
      by (simp add: st shuffle_step_def hmacSha256_Some await_Inr resolve_def
          del: split_paired_Ex)
  next
    case False
    then show ?thesis
      by (simp add: st shuffle_step_def await_Inr resolve_def del: split_paired_Ex)
  qed
qed

lemma shuffle_loop_total:
  "subtle p = Some s \<Longrightarrow> \<exists>x cs. shuffle_loop p keyBytes n st = (Inr x, cs)"
proof (induction n arbitrary: st)
  case 0
  show ?case unfolding shuffle_loop.simps resolve_def by blast
next
  case (Suc n)
  from shuffle_step_total [OF Suc.prems]
  obtain x cs where st: "shuffle_step p keyBytes (Suc n) st = (Inr x, cs)" by blast
  from Suc.IH [OF Suc.prems]
  obtain y ds where "shuffle_loop p keyBytes n x = (Inr y, ds)" by blast
  with st show ?case by (simp add: await_Inr del: split_paired_Ex)
qed

lemma deterministicShuffle_total:
  assumes "subtle p = Some s"
  shows "\<exists>arr' cs. deterministicShuffle p arr keyBytes = (Inr arr', cs)"
proof -
  from shuffle_loop_total [OF assms]
  obtain x cs where
    "shuffle_loop p keyBytes (length arr - 1)
       (sign s keyBytes (encode p (lit ''shuffle-v1'')), 0, arr, None) = (Inr x, cs)" by blast
  then show ?thesis using assms
    by (cases x rule: prod_cases4)
      (simp add: deterministicShuffle_def hmacSha256_Some await_Inr resolve_def)
qed

lemma mset_join: "mset (join arr) = (\<Sum>x\<in>#mset arr. mset (case x of None \<Rightarrow> [] | Some c \<Rightarrow> [c]))"
  by (induction arr) (simp_all add: join_def)

lemma join_split: "join (split s) = s"
  by (induction s) (simp_all add: join_def split_def)

lemma join_shuffled:
  assumes "mset arr = mset (split s)"
  shows "mset (join arr) = mset s"
proof -
  have "mset (join arr) = mset (join (split s))"
    by (simp only: mset_join assms)
  then show ?thesis by (simp add: join_split)
qed

lemma length_join: "None \<notin> set arr \<Longrightarrow> length (join arr) = length arr"
proof (induction arr)
  case Nil
  show ?case by (simp add: join_def)
next
  case (Cons a arr)
  then show ?case by (cases a) (simp_all add: join_def)
qed

lemma shuffled_defined:
  assumes "mset arr = mset (split s)"
  shows "None \<notin> set arr"
proof -
  from assms have "set arr = set (split s)" by (rule mset_eq_setD)
  then show ?thesis by (auto simp: split_def)
qed

subsection \<open>The character classes and the mapper\<close>

declare class_loop.simps [simp del]
declare fill_loop.simps [simp del]

lemma class_nonempty: "LOWER \<noteq> []" "UPPER \<noteq> []" "DIGITS \<noteq> []" "SYMBOLS \<noteq> []"
  by (simp_all add: LOWER_def UPPER_def DIGITS_def SYMBOLS_def)

lemma class_sizes:
  "length LOWER = 26" "length UPPER = 26" "length DIGITS = 10" "length SYMBOLS = 27"
  by (simp_all add: LOWER_def UPPER_def DIGITS_def SYMBOLS_def)

lemma COMBINED_eq: "COMBINED = LOWER @ UPPER @ DIGITS @ SYMBOLS"
  by (simp add: COMBINED_def ALLSETS_def)

lemma COMBINED_size: "length COMBINED = 89"
  by (simp add: COMBINED_eq class_sizes)

lemma COMBINED_distinct: "distinct COMBINED"
  by (simp add: COMBINED_eq LOWER_def UPPER_def DIGITS_def SYMBOLS_def)

lemma ALLSETS_size: "length ALLSETS = 4"
  by (simp add: ALLSETS_def)

lemma bytesToInt_Some: "bytesToInt (Some w) = unat w"
proof -
  have "w AND - 1 = w" by simp
  moreover have "(0xff :: byte) = - 1" by simp
  ultimately have "w AND 0xff = w" by (simp only:)
  then show ?thesis by (simp add: bytesToInt_def)
qed

lemma below_length_iff: "(of_nat i < (r :: rat)) \<longleftrightarrow> i < nat \<lceil>r\<rceil>"
proof -
  have "(of_nat i < r) \<longleftrightarrow> (of_int (int i) < r)" by simp
  also have "\<dots> \<longleftrightarrow> int i < \<lceil>r\<rceil>" by (simp only: less_ceiling_iff)
  also have "\<dots> \<longleftrightarrow> i < nat \<lceil>r\<rceil>" by (simp only: zless_nat_eq_int_zless)
  finally show ?thesis .
qed

lemma class_loop_closed:
  assumes "i \<le> length ALLSETS" "int (length out) + (int (length ALLSETS) - int i) \<le> cap"
  shows "class_loop cap keyBytes i out =
     Inr (out @ map (\<lambda>i. (ALLSETS ! i) ! (bytesToInt (keyByte keyBytes i) mod length (ALLSETS ! i)))
                  [i ..< length ALLSETS])"
  using assms
proof (induction "length ALLSETS - i" arbitrary: i out)
  case 0
  then have "i = length ALLSETS" by simp
  then show ?case by (subst class_loop.simps) simp
next
  case (Suc d)
  then have lt: "i < length ALLSETS" by simp
  then have "int i < int (length ALLSETS)" by (simp only: of_nat_less_iff)
  with Suc.prems(2) have room: "int (length out) < cap" by linarith
  let ?out = "out @ [(ALLSETS ! i) ! (bytesToInt (keyByte keyBytes i) mod length (ALLSETS ! i))]"
  have "d = length ALLSETS - (i + 1)" using Suc.hyps(2) by simp
  moreover have "i + 1 \<le> length ALLSETS" using lt by simp
  moreover have "int (length ?out) = int (length out) + 1" "int (i + 1) = int i + 1" by simp_all
  with Suc.prems(2) have "int (length ?out) + (int (length ALLSETS) - int (i + 1)) \<le> cap"
    by linarith
  ultimately have "class_loop cap keyBytes (i + 1) ?out
     = Inr (?out @ map (\<lambda>i. (ALLSETS ! i) ! (bytesToInt (keyByte keyBytes i) mod length (ALLSETS ! i)))
                [i + 1 ..< length ALLSETS])"
    by (rule Suc.hyps(1))
  then show ?case
    using lt room by (subst class_loop.simps) (simp add: Let_def upt_conv_Cons)
qed

lemma class_loop_full:
  assumes "cap < int (length ALLSETS)"
  shows "length out = i \<Longrightarrow> i < length ALLSETS \<Longrightarrow> class_loop cap keyBytes i out = Inl RangeError"
proof (induction "length ALLSETS - i" arbitrary: i out)
  case 0
  then show ?case by simp
next
  case (Suc d)
  let ?out = "out @ [(ALLSETS ! i) ! (bytesToInt (keyByte keyBytes i) mod length (ALLSETS ! i))]"
  show ?case
  proof (cases "int (length out) < cap")
    case True
    with assms Suc.prems(1) have next_lt: "i + 1 < length ALLSETS" by simp
    have "d = length ALLSETS - (i + 1)" using Suc.hyps(2) by simp
    moreover have "length ?out = i + 1" using Suc.prems(1) by simp
    ultimately have "class_loop cap keyBytes (i + 1) ?out = Inl RangeError"
      using next_lt by (rule Suc.hyps(1))
    with Suc.prems(2) True show ?thesis by (subst class_loop.simps) (simp add: Let_def)
  next
    case False
    with Suc.prems(2) show ?thesis by (subst class_loop.simps) (simp add: Let_def)
  qed
qed

lemma fill_loop_closed:
  assumes "i \<le> nat \<lceil>r\<rceil>" "int (length out) + (\<lceil>r\<rceil> - int i) \<le> cap"
  shows "fill_loop cap keyBytes (Finite r) i out =
     Inr (out @ map (\<lambda>i. COMBINED ! (bytesToInt (keyByte keyBytes i) mod length COMBINED))
                  [i ..< nat \<lceil>r\<rceil>])"
  using assms
proof (induction "nat \<lceil>r\<rceil> - i" arbitrary: i out)
  case 0
  then have "i = nat \<lceil>r\<rceil>" by simp
  then have "\<not> of_nat i < r" by (simp add: below_length_iff)
  with \<open>i = nat \<lceil>r\<rceil>\<close> show ?case by (subst fill_loop.simps) simp
next
  case (Suc d)
  then have lt: "i < nat \<lceil>r\<rceil>" by simp
  then have "int i < \<lceil>r\<rceil>" by (simp only: zless_nat_eq_int_zless)
  with Suc.prems(2) have room: "int (length out) < cap" by linarith
  from lt have cond: "of_nat i < r" by (simp add: below_length_iff)
  let ?out = "out @ [COMBINED ! (bytesToInt (keyByte keyBytes i) mod length COMBINED)]"
  have "d = nat \<lceil>r\<rceil> - (i + 1)" using Suc.hyps(2) by simp
  moreover have "i + 1 \<le> nat \<lceil>r\<rceil>" using lt by simp
  moreover have "int (length ?out) = int (length out) + 1" "int (i + 1) = int i + 1" by simp_all
  with Suc.prems(2) have "int (length ?out) + (\<lceil>r\<rceil> - int (i + 1)) \<le> cap"
    by linarith
  ultimately have "fill_loop cap keyBytes (Finite r) (i + 1) ?out
     = Inr (?out @ map (\<lambda>i. COMBINED ! (bytesToInt (keyByte keyBytes i) mod length COMBINED))
                [i + 1 ..< nat \<lceil>r\<rceil>])"
    by (rule Suc.hyps(1))
  then show ?case
    using lt room cond by (subst fill_loop.simps) (simp add: Let_def upt_conv_Cons)
qed

lemma fill_loop_full:
  assumes "\<forall>j. i \<le> j \<and> int j \<le> int i + (cap - int (length out))
             \<longrightarrow> lt_num (Finite (of_nat j)) len"
    and "int (length out) \<le> cap"
  shows "fill_loop cap keyBytes len i out = Inl RangeError"
  using assms
proof (induction "nat (cap - int (length out))" arbitrary: i out)
  case 0
  then have "lt_num (Finite (of_nat i)) len" "\<not> int (length out) < cap" by simp_all
  then show ?case by (subst fill_loop.simps) (simp add: Let_def)
next
  case (Suc d)
  then have room: "int (length out) < cap" by simp
  from Suc.prems(1) Suc.prems(2) have cond: "lt_num (Finite (of_nat i)) len" by simp
  let ?out = "out @ [COMBINED ! (bytesToInt (keyByte keyBytes i) mod length COMBINED)]"
  have len_out: "length ?out = length out + 1" by simp
  have "d = nat (cap - int (length ?out))" using Suc.hyps(2) by simp
  moreover have "\<forall>j. i + 1 \<le> j \<and> int j \<le> int (i + 1) + (cap - int (length ?out))
      \<longrightarrow> lt_num (Finite (of_nat j)) len"
  proof (intro allI impI)
    fix j
    assume j: "i + 1 \<le> j \<and> int j \<le> int (i + 1) + (cap - int (length ?out))"
    with len_out have "i \<le> j \<and> int j \<le> int i + (cap - int (length out))" by simp
    with Suc.prems(1) show "lt_num (Finite (of_nat j)) len" by blast
  qed
  moreover have "int (length ?out) \<le> cap" using room by simp
  ultimately have "fill_loop cap keyBytes len (i + 1) ?out = Inl RangeError"
    by (rule Suc.hyps(1))
  with cond room show ?case by (subst fill_loop.simps) (simp add: Let_def)
qed

lemma fill_loop_error: "fill_loop cap keyBytes len i out = Inl e \<Longrightarrow> e = RangeError"
proof (induction cap keyBytes len i out rule: fill_loop.induct)
  case (1 cap keyBytes len i out)
  show ?case
  proof (cases "lt_num (Finite (of_nat i)) len \<and> int (length out) < cap")
    case True
    with "1.prems" have "fill_loop cap keyBytes len (i + 1)
        (out @ [COMBINED ! (bytesToInt (keyByte keyBytes i) mod length COMBINED)]) = Inl e"
      by (subst (asm) fill_loop.simps) (simp add: Let_def)
    with True show ?thesis by (intro "1.IH") simp_all
  next
    case False
    with "1.prems" show ?thesis
      by (subst (asm) fill_loop.simps) (auto simp: Let_def split: if_splits)
  qed
qed

lemma class_loop_error: "class_loop cap keyBytes i out = Inl e \<Longrightarrow> e = RangeError"
proof (induction cap keyBytes i out rule: class_loop.induct)
  case (1 cap keyBytes i out)
  show ?case
  proof (cases "i < length ALLSETS \<and> int (length out) < cap")
    case True
    with "1.prems" have "class_loop cap keyBytes (i + 1)
        (out @ [(ALLSETS ! i) ! (bytesToInt (keyByte keyBytes i) mod length (ALLSETS ! i))]) = Inl e"
      by (subst (asm) class_loop.simps) (simp add: Let_def)
    with True show ?thesis by (intro "1.IH") simp_all
  next
    case False
    with "1.prems" show ?thesis
      by (subst (asm) class_loop.simps) (auto simp: Let_def split: if_splits)
  qed
qed

lemma mapBytesToPassword_closed:
  assumes "8 \<le> r" "\<lceil>r\<rceil> \<le> cap"
  shows "mapBytesToPassword cap keyBytes (Finite r) =
     Inr (map (\<lambda>i. (ALLSETS ! i) ! (bytesToInt (keyByte keyBytes i) mod length (ALLSETS ! i)))
            [0 ..< length ALLSETS]
          @ map (\<lambda>i. COMBINED ! (bytesToInt (keyByte keyBytes i) mod length COMBINED))
              [length ALLSETS ..< nat \<lceil>r\<rceil>])"
proof -
  from assms(1) have big: "8 \<le> \<lceil>r\<rceil>" by (simp add: le_ceiling_iff)
  with assms(2) have "4 \<le> cap" by linarith
  then have c: "class_loop cap keyBytes 0 [] =
      Inr ([] @ map (\<lambda>i. (ALLSETS ! i) ! (bytesToInt (keyByte keyBytes i) mod length (ALLSETS ! i)))
                  [0 ..< length ALLSETS])"
    by (intro class_loop_closed) (simp_all add: ALLSETS_size)
  let ?out = "map (\<lambda>i. (ALLSETS ! i) ! (bytesToInt (keyByte keyBytes i) mod length (ALLSETS ! i)))
                  [0 ..< length ALLSETS]"
  from big have "4 \<le> nat \<lceil>r\<rceil>" by linarith
  then have "length ALLSETS \<le> nat \<lceil>r\<rceil>" by (simp only: ALLSETS_size)
  moreover from assms(2) have "int (length ?out) + (\<lceil>r\<rceil> - int (length ALLSETS)) \<le> cap"
    by simp
  ultimately have f: "fill_loop cap keyBytes (Finite r) (length ALLSETS) ?out =
      Inr (?out @ map (\<lambda>i. COMBINED ! (bytesToInt (keyByte keyBytes i) mod length COMBINED))
                    [length ALLSETS ..< nat \<lceil>r\<rceil>])"
    by (rule fill_loop_closed)
  from assms(1) have "\<not> lt_num (Finite r) (Finite 8)" by simp
  with c f show ?thesis by (simp add: mapBytesToPassword_def)
qed

lemma mapBytesToPassword_ok:
  assumes "8 \<le> r" "\<lceil>r\<rceil> \<le> cap"
  shows "\<exists>a b c d rest. mapBytesToPassword cap keyBytes (Finite r) = Inr (a # b # c # d # rest)
           \<and> a \<in> set LOWER \<and> b \<in> set UPPER \<and> c \<in> set DIGITS \<and> d \<in> set SYMBOLS
           \<and> length (a # b # c # d # rest) = nat \<lceil>r\<rceil>"
proof -
  from assms(1) have "8 \<le> nat \<lceil>r\<rceil>" by (simp add: le_nat_iff le_ceiling_iff)
  then show ?thesis
    by (simp add: mapBytesToPassword_closed [OF assms] ALLSETS_def Let_def class_nonempty)
qed

lemma mapBytesToPassword_fill:
  assumes "8 \<le> r" "\<lceil>r\<rceil> \<le> cap" "4 \<le> i" "of_nat i < r" "keyBytes \<noteq> []"
  shows "\<exists>pw. mapBytesToPassword cap keyBytes (Finite r) = Inr pw
           \<and> pw ! i = COMBINED ! (unat (keyBytes ! (i mod length keyBytes)) mod 89)"
proof -
  have kb: "keyByte keyBytes i = Some (keyBytes ! (i mod length keyBytes))"
    using assms(5) by (simp add: keyByte_def read_at_def)
  from assms(4) have "i < nat \<lceil>r\<rceil>" by (simp add: below_length_iff)
  with assms(3) have "i - 4 < nat \<lceil>r\<rceil> - 4" by linarith
  with assms(3) show ?thesis
    by (simp add: mapBytesToPassword_closed [OF assms(1,2)] ALLSETS_size nth_append kb
        bytesToInt_Some COMBINED_size)
qed

lemma mapBytesToPassword_short:
  "lt_num len (Finite 8) \<Longrightarrow> mapBytesToPassword cap keyBytes len = Inl ValidationError"
  by (simp add: mapBytesToPassword_def ValidationError_def)

lemma mapBytesToPassword_error:
  assumes "mapBytesToPassword cap keyBytes len = Inl e"
  shows "(lt_num len (Finite 8) \<and> e = ValidationError) \<or> (\<not> lt_num len (Finite 8) \<and> e = RangeError)"
proof (cases "lt_num len (Finite 8)")
  case True
  with assms show ?thesis by (simp add: mapBytesToPassword_short)
next
  case False
  show ?thesis
  proof (cases "class_loop cap keyBytes 0 []")
    case (Inl e')
    with assms False have "e' = e" by (simp add: mapBytesToPassword_def)
    with Inl have "e = RangeError" by (auto dest: class_loop_error)
    with False show ?thesis by simp
  next
    case (Inr out)
    with assms False have "fill_loop cap keyBytes len (length ALLSETS) out = Inl e"
      by (simp add: mapBytesToPassword_def)
    then have "e = RangeError" by (rule fill_loop_error)
    with False show ?thesis by simp
  qed
qed

lemma mapBytesToPassword_full:
  assumes "\<not> lt_num len (Finite 8)" "\<forall>j. int j \<le> cap \<longrightarrow> lt_num (Finite (of_nat j)) len"
  shows "mapBytesToPassword cap keyBytes len = Inl RangeError"
proof (cases "cap < int (length ALLSETS)")
  case True
  then have "class_loop cap keyBytes 0 [] = Inl RangeError"
    by (intro class_loop_full) (simp_all add: ALLSETS_size)
  with assms(1) show ?thesis by (simp add: mapBytesToPassword_def)
next
  case False
  let ?out = "map (\<lambda>i. (ALLSETS ! i) ! (bytesToInt (keyByte keyBytes i) mod length (ALLSETS ! i)))
                  [0 ..< length ALLSETS]"
  from False have c: "class_loop cap keyBytes 0 [] = Inr ([] @ ?out)"
    by (intro class_loop_closed) simp_all
  have "fill_loop cap keyBytes len (length ALLSETS) ?out = Inl RangeError"
  proof (rule fill_loop_full)
    show "\<forall>j. length ALLSETS \<le> j \<and> int j \<le> int (length ALLSETS) + (cap - int (length ?out))
        \<longrightarrow> lt_num (Finite (of_nat j)) len"
      using assms(2) by simp
    show "int (length ?out) \<le> cap" using False by simp
  qed
  with c assms(1) show ?thesis by (simp add: mapBytesToPassword_def)
qed

subsection \<open>Trimming\<close>

lemma last_dropWhile: "dropWhile P xs \<noteq> [] \<Longrightarrow> last (dropWhile P xs) = last xs"
  by (induction xs) auto

lemma trim_ends:
  assumes "trim t \<noteq> []"
  shows "\<not> isWhiteSpace (hd (trim t)) \<and> \<not> isWhiteSpace (last (trim t))"
proof -
  define ys where "ys = dropWhile isWhiteSpace t"
  define zs where "zs = dropWhile isWhiteSpace (rev ys)"
  have tr: "trim t = rev zs" by (simp add: trim_def ys_def zs_def)
  with assms have zs: "zs \<noteq> []" by simp
  then have "rev ys \<noteq> []" by (auto simp: zs_def)
  then have ys: "ys \<noteq> []" by simp
  have "last (trim t) = hd zs" using zs by (simp add: tr last_rev)
  moreover have "\<not> isWhiteSpace (hd zs)"
    using zs unfolding zs_def by (rule hd_dropWhile)
  moreover have "hd (trim t) = last zs" using zs by (simp add: tr hd_rev)
  moreover have "last zs = last (rev ys)"
    using zs unfolding zs_def by (rule last_dropWhile)
  moreover have "last (rev ys) = hd ys" using ys by (simp add: last_rev)
  moreover have "\<not> isWhiteSpace (hd ys)"
    using ys unfolding ys_def by (rule hd_dropWhile)
  ultimately show ?thesis by simp
qed

lemma trim_padded:
  assumes "list_all isWhiteSpace u" "list_all isWhiteSpace u'"
  shows "trim (u @ t @ u') = trim t"
proof -
  from assms(1) have front: "dropWhile isWhiteSpace (u @ t @ u') = dropWhile isWhiteSpace (t @ u')"
    by (simp add: list_all_iff dropWhile_append2)
  show ?thesis
  proof (cases "dropWhile isWhiteSpace t = []")
    case True
    then have "\<forall>x\<in>set t. isWhiteSpace x" by (simp add: dropWhile_eq_Nil_conv)
    with assms(2) have "dropWhile isWhiteSpace (t @ u') = []"
      by (simp add: dropWhile_eq_Nil_conv list_all_iff)
    with front have "dropWhile isWhiteSpace (u @ t @ u') = []" by simp
    then show ?thesis unfolding trim_def True by (simp only:)
  next
    case False
    then obtain x where "x \<in> set t" "\<not> isWhiteSpace x"
      by (auto simp: dropWhile_eq_Nil_conv)
    then have "dropWhile isWhiteSpace (t @ u') = dropWhile isWhiteSpace t @ u'"
      by (rule dropWhile_append1)
    moreover from assms(2) have
      "dropWhile isWhiteSpace (rev u' @ rev (dropWhile isWhiteSpace t))
         = dropWhile isWhiteSpace (rev (dropWhile isWhiteSpace t))"
      by (intro dropWhile_append2) (simp add: list_all_iff)
    ultimately have "dropWhile isWhiteSpace (rev (dropWhile isWhiteSpace (u @ t @ u')))
         = dropWhile isWhiteSpace (rev (dropWhile isWhiteSpace t))"
      using front by simp
    then show ?thesis unfolding trim_def by (simp only:)
  qed
qed

subsection \<open>The orchestrator\<close>

lemma errors_distinct:
  "ValidationError \<noteq> ConfigurationError" "EnvironmentError \<noteq> ConfigurationError"
  "EnvironmentError \<noteq> ValidationError" "RangeError \<noteq> ConfigurationError"
  "RangeError \<noteq> ValidationError"
  by (simp_all add: ValidationError_def ConfigurationError_def EnvironmentError_def)

lemma host_okD: "host_ok p \<Longrightarrow> \<exists>s. subtle p = Some s \<and> (\<forall>k m. sign s k m \<noteq> [])"
  by (simp add: host_ok_def split: option.splits)

lemma bits_short: "lt_num len (Finite 8) \<Longrightarrow> max_num (Finite 512) (mul_num len 16) = Finite 512"
proof (cases len)
  case (Finite r)
  assume "lt_num len (Finite 8)"
  with Finite have r: "r < 8" by simp
  have "128 < MAX_VALUE" by (simp add: MAX_VALUE_def)
  with r have "\<not> MAX_VALUE < r * 16" by simp
  with r Finite show ?thesis by (simp add: mul_num.simps max_num.simps)
qed (simp_all add: mul_num.simps max_num.simps)

declare mul_num.simps [simp del]
declare max_num.simps [simp del]

lemma generatePassword_low_iterations:
  "nullish (opt_iterations opts) 600000 < 100000 \<Longrightarrow>
   generatePassword p m n opts = (Inl ConfigurationError, [])"
  by (simp add: generatePassword_def Let_def reject_def ConfigurationError_def)

lemma generatePassword_offline:
  "100000 \<le> nullish (opt_iterations opts) 600000 \<Longrightarrow> subtle p = None \<Longrightarrow>
   generatePassword p m n opts = (Inl EnvironmentError, [])"
  by (simp add: generatePassword_def Let_def deterministicSalt_def sha256_def getSubtle_None
      await_Inl)

text \<open>The outcome of a run on a host with Web Crypto, stage by stage.\<close>

lemma generatePassword_unfold:
  assumes "subtle p = Some s" "100000 \<le> nullish (opt_iterations opts) 600000"
  shows "generatePassword p m n opts =
     (let len = nullish (opt_length opts) (Finite 20);
          payload = encode p (lit ''pwgen-salt-v1'' @ lit ''|''
                      @ normText p (nullish (opt_context opts) [])
                      @ lit ''|'' @ normText p (String_of p n));
          salt = take 16 (digest s payload);
          password = encode p (normText p m);
          bits = max_num (Finite 512) (mul_num len 16);
          keyBytes = deriveBits s password salt (nullish (opt_iterations opts) 600000) bits;
          calls = [Digest payload,
                   DeriveBits password salt (nullish (opt_iterations opts) 600000) bits]
      in case mapBytesToPassword (capacity p) keyBytes len of
           Inl e \<Rightarrow> (Inl e, calls)
         | Inr s0 \<Rightarrow>
             (case deterministicShuffle p (split s0) keyBytes of
                (Inl e, cs) \<Rightarrow> (Inl e, calls @ cs)
              | (Inr arr, cs) \<Rightarrow> (Inr (join (slice0 arr len)), calls @ cs)))"
  using assms
  by (simp add: generatePassword_def Let_def deterministicSalt_Some pbkdf2_Some await_Inr
      await_def reject_def resolve_def split: sum.splits prod.splits)

lemma generatePassword_calls:
  assumes "subtle p = Some s" "100000 \<le> nullish (opt_iterations opts) 600000"
  shows "\<exists>r rest. generatePassword p m n opts =
     (let payload = encode p (lit ''pwgen-salt-v1'' @ lit ''|''
                      @ normText p (nullish (opt_context opts) [])
                      @ lit ''|'' @ normText p (String_of p n))
      in (r, Digest payload
             # DeriveBits (encode p (normText p m)) (take 16 (digest s payload))
                 (nullish (opt_iterations opts) 600000)
                 (max_num (Finite 512) (mul_num (nullish (opt_length opts) (Finite 20)) 16))
             # rest))"
  by (simp add: generatePassword_unfold [OF assms] Let_def split: sum.splits prod.splits)

lemma generatePassword_short:
  assumes "subtle p = Some s" "100000 \<le> nullish (opt_iterations opts) 600000"
    "lt_num (nullish (opt_length opts) (Finite 20)) (Finite 8)"
  shows "generatePassword p m n opts =
     (let payload = encode p (lit ''pwgen-salt-v1'' @ lit ''|''
                      @ normText p (nullish (opt_context opts) [])
                      @ lit ''|'' @ normText p (String_of p n))
      in (Inl ValidationError,
          [Digest payload,
           DeriveBits (encode p (normText p m)) (take 16 (digest s payload))
             (nullish (opt_iterations opts) 600000) (Finite 512)]))"
  by (simp add: generatePassword_unfold [OF assms(1,2)] Let_def
      mapBytesToPassword_short [OF assms(3)] bits_short [OF assms(3)])

lemma generatePassword_full:
  assumes "subtle p = Some s" "100000 \<le> nullish (opt_iterations opts) 600000"
    "\<not> lt_num (nullish (opt_length opts) (Finite 20)) (Finite 8)"
    "\<forall>j. int j \<le> capacity p \<longrightarrow> lt_num (Finite (of_nat j)) (nullish (opt_length opts) (Finite 20))"
  shows "fst (generatePassword p m n opts) = Inl RangeError"
  by (simp add: generatePassword_unfold [OF assms(1,2)] Let_def
      mapBytesToPassword_full [OF assms(3,4)])

lemma generatePassword_total:
  assumes "subtle p = Some s" "100000 \<le> nullish (opt_iterations opts) 600000"
    "nullish (opt_length opts) (Finite 20) = Finite r" "8 \<le> r" "\<lceil>r\<rceil> \<le> capacity p"
  shows "\<exists>pw cs. generatePassword p m n opts = (Inr pw, cs)"
proof -
  define payload where "payload = encode p (lit ''pwgen-salt-v1'' @ lit ''|''
     @ normText p (nullish (opt_context opts) []) @ lit ''|'' @ normText p (String_of p n))"
  define key where "key = deriveBits s (encode p (normText p m)) (take 16 (digest s payload))
     (nullish (opt_iterations opts) 600000) (max_num (Finite 512) (mul_num (Finite r) 16))"
  from mapBytesToPassword_ok [OF assms(4,5)]
  obtain s0 where s0: "mapBytesToPassword (capacity p) key (Finite r) = Inr s0" by blast
  from deterministicShuffle_total [OF assms(1)]
  obtain arr' cs where "deterministicShuffle p (split s0) key = (Inr arr', cs)" by blast
  with s0 show ?thesis
    by (simp add: generatePassword_unfold [OF assms(1,2)] Let_def assms(3)
        payload_def [symmetric] key_def [symmetric])
qed

lemma generatePassword_run:
  assumes "host_ok p" "100000 \<le> nullish (opt_iterations opts) 600000"
    "nullish (opt_length opts) (Finite 20) = Finite r" "8 \<le> r" "\<lceil>r\<rceil> \<le> capacity p"
  shows "\<exists>arr cs key s0.
           generatePassword p m n opts = (Inr (join (slice0 arr (Finite r))), cs)
         \<and> mapBytesToPassword (capacity p) key (Finite r) = Inr s0
         \<and> mset arr = mset (split s0)"
proof -
  from host_okD [OF assms(1)] obtain s where
    s: "subtle p = Some s" and ne: "\<forall>k m. sign s k m \<noteq> []" by blast
  define payload where "payload = encode p (lit ''pwgen-salt-v1'' @ lit ''|''
     @ normText p (nullish (opt_context opts) []) @ lit ''|'' @ normText p (String_of p n))"
  define key where "key = deriveBits s (encode p (normText p m)) (take 16 (digest s payload))
     (nullish (opt_iterations opts) 600000) (max_num (Finite 512) (mul_num (Finite r) 16))"
  from mapBytesToPassword_ok [OF assms(4,5)]
  obtain s0 where s0: "mapBytesToPassword (capacity p) key (Finite r) = Inr s0" by blast
  from deterministicShuffle_ok [OF s ne]
  obtain arr cs where sh: "deterministicShuffle p (split s0) key = (Inr arr, cs)"
    and ms: "mset arr = mset (split s0)" by blast
  from s0 sh have "\<exists>ds. generatePassword p m n opts = (Inr (join (slice0 arr (Finite r))), ds)"
    by (simp add: generatePassword_unfold [OF s assms(2)] Let_def assms(3)
        payload_def [symmetric] key_def [symmetric])
  with s0 ms show ?thesis by blast
qed

lemma generatePassword_length:
  assumes "host_ok p" "100000 \<le> nullish (opt_iterations opts) 600000"
    "nullish (opt_length opts) (Finite 20) = Finite r" "8 \<le> r" "\<lceil>r\<rceil> \<le> capacity p"
  shows "\<exists>pw. fst (generatePassword p m n opts) = Inr pw \<and> int (length pw) = \<lfloor>r\<rfloor>"
proof -
  from generatePassword_run [OF assms, where m = m and n = n] obtain arr cs key s0 where
    g: "generatePassword p m n opts = (Inr (join (slice0 arr (Finite r))), cs)"
    and mp: "mapBytesToPassword (capacity p) key (Finite r) = Inr s0"
    and ms: "mset arr = mset (split s0)" by blast
  from mapBytesToPassword_ok [OF assms(4,5), of key] mp
  have "length s0 = nat \<lceil>r\<rceil>" by auto
  moreover from ms have "length arr = length (split s0)" by (rule mset_eq_length)
  ultimately have la: "length arr = nat \<lceil>r\<rceil>" by (simp add: split_def)
  from assms(4) have fl: "8 \<le> \<lfloor>r\<rfloor>" by (simp add: le_floor_iff)
  have "\<lfloor>r\<rfloor> \<le> \<lceil>r\<rceil>" by (rule floor_le_ceiling)
  then have "nat \<lfloor>r\<rfloor> \<le> nat \<lceil>r\<rceil>" by (rule nat_mono)
  with la have ll: "length (take (nat \<lfloor>r\<rfloor>) arr) = nat \<lfloor>r\<rfloor>" by simp
  from fl assms(4) have sl: "slice0 arr (Finite r) = take (nat \<lfloor>r\<rfloor>) arr"
    by (simp add: to_integer_def)
  from ms have "None \<notin> set arr" by (rule shuffled_defined)
  then have "None \<notin> set (take (nat \<lfloor>r\<rfloor>) arr)" by (auto dest: in_set_takeD)
  then have "length (join (take (nat \<lfloor>r\<rfloor>) arr)) = nat \<lfloor>r\<rfloor>"
    using ll by (simp add: length_join)
  with g sl fl show ?thesis by simp
qed

lemma generatePassword_integer:
  assumes "host_ok p" "100000 \<le> nullish (opt_iterations opts) 600000"
    "nullish (opt_length opts) (Finite 20) = Finite (of_int k)" "8 \<le> k" "k \<le> capacity p"
  shows "\<exists>pw cs key s0.
           generatePassword p m n opts = (Inr pw, cs)
         \<and> mapBytesToPassword (capacity p) key (Finite (of_int k)) = Inr s0
         \<and> mset pw = mset s0"
proof -
  from assms(4,5) have r: "(8 :: rat) \<le> of_int k" "\<lceil>(of_int k :: rat)\<rceil> \<le> capacity p"
    by simp_all
  from generatePassword_run [OF assms(1-3) r, where m = m and n = n] obtain arr cs key s0 where
    g: "generatePassword p m n opts = (Inr (join (slice0 arr (Finite (of_int k)))), cs)"
    and mp: "mapBytesToPassword (capacity p) key (Finite (of_int k)) = Inr s0"
    and ms: "mset arr = mset (split s0)" by blast
  from mapBytesToPassword_ok [OF r, of key] mp
  have "length s0 = nat k" by auto
  moreover from ms have "length arr = length (split s0)" by (rule mset_eq_length)
  ultimately have "length arr = nat k" by (simp add: split_def)
  with assms(4) have "slice0 arr (Finite (of_int k)) = arr" by (simp add: to_integer_def)
  moreover have "mset (join arr) = mset s0" using ms by (rule join_shuffled)
  ultimately show ?thesis using g mp by auto
qed

lemma generatePassword_validation:
  assumes "subtle p = Some s" "100000 \<le> nullish (opt_iterations opts) 600000"
  shows "fst (generatePassword p m n opts) = Inl ValidationError
           \<longleftrightarrow> lt_num (nullish (opt_length opts) (Finite 20)) (Finite 8)"
proof (cases "lt_num (nullish (opt_length opts) (Finite 20)) (Finite 8)")
  case True
  then show ?thesis by (simp add: generatePassword_short [OF assms] Let_def)
next
  case False
  define payload where "payload = encode p (lit ''pwgen-salt-v1'' @ lit ''|''
     @ normText p (nullish (opt_context opts) []) @ lit ''|'' @ normText p (String_of p n))"
  define key where "key = deriveBits s (encode p (normText p m)) (take 16 (digest s payload))
     (nullish (opt_iterations opts) 600000)
     (max_num (Finite 512) (mul_num (nullish (opt_length opts) (Finite 20)) 16))"
  have "fst (generatePassword p m n opts) \<noteq> Inl ValidationError"
  proof (cases "mapBytesToPassword (capacity p) key (nullish (opt_length opts) (Finite 20))")
    case (Inl e)
    with False have "e = RangeError" by (auto dest: mapBytesToPassword_error)
    with Inl show ?thesis
      by (simp add: generatePassword_unfold [OF assms] Let_def payload_def [symmetric]
          key_def [symmetric] errors_distinct)
  next
    case (Inr s0)
    from deterministicShuffle_total [OF assms(1)]
    obtain arr cs where "deterministicShuffle p (split s0) key = (Inr arr, cs)" by blast
    with Inr show ?thesis
      by (simp add: generatePassword_unfold [OF assms] Let_def payload_def [symmetric]
          key_def [symmetric])
  qed
  with False show ?thesis by simp
qed

lemma generatePassword_coverage:
  assumes "host_ok p" "100000 \<le> nullish (opt_iterations opts) 600000"
    "nullish (opt_length opts) (Finite 20) = Finite (of_int k)" "8 \<le> k" "k \<le> capacity p"
  shows "\<exists>pw. fst (generatePassword p m n opts) = Inr pw
   \<and> (\<exists>c. c \<in># mset pw \<and> c \<in> set LOWER)
   \<and> (\<exists>c. c \<in># mset pw \<and> c \<in> set UPPER)
   \<and> (\<exists>c. c \<in># mset pw \<and> c \<in> set DIGITS)
   \<and> (\<exists>c. c \<in># mset pw \<and> c \<in> set SYMBOLS)"
proof -
  from generatePassword_integer [OF assms, where m = m and n = n] obtain pw cs key s0 where
    g: "generatePassword p m n opts = (Inr pw, cs)"
    and mp: "mapBytesToPassword (capacity p) key (Finite (of_int k)) = Inr s0"
    and ms: "mset pw = mset s0" by blast
  from assms(4,5) have r: "(8 :: rat) \<le> of_int k" "\<lceil>(of_int k :: rat)\<rceil> \<le> capacity p"
    by simp_all
  from mapBytesToPassword_ok [OF r, of key] mp
  obtain a b c d rest where s0: "s0 = a # b # c # d # rest"
    and cls: "a \<in> set LOWER" "b \<in> set UPPER" "c \<in> set DIGITS" "d \<in> set SYMBOLS"
    by auto
  have "a \<in># mset pw" "b \<in># mset pw" "c \<in># mset pw" "d \<in># mset pw"
    by (simp_all add: ms s0)
  with cls g show ?thesis by auto
qed

lemma generatePassword_not_configuration:
  assumes "100000 \<le> nullish (opt_iterations opts) 600000"
  shows "fst (generatePassword p m n opts) \<noteq> Inl ConfigurationError"
proof (cases "subtle p")
  case None
  with assms show ?thesis by (simp add: generatePassword_offline errors_distinct)
next
  case (Some s)
  let ?len = "nullish (opt_length opts) (Finite 20)"
  let ?key = "deriveBits s (encode p (normText p m))
     (take 16 (digest s (encode p (lit ''pwgen-salt-v1'' @ lit ''|''
        @ normText p (nullish (opt_context opts) []) @ lit ''|'' @ normText p (String_of p n)))))
     (nullish (opt_iterations opts) 600000) (max_num (Finite 512) (mul_num ?len 16))"
  show ?thesis
  proof (cases "mapBytesToPassword (capacity p) ?key ?len")
    case (Inl e)
    then have "e = ValidationError \<or> e = RangeError" by (auto dest: mapBytesToPassword_error)
    then have "e \<noteq> ConfigurationError" using errors_distinct by metis
    with Inl show ?thesis
      by (simp add: generatePassword_unfold [OF Some assms] Let_def)
  next
    case (Inr s0)
    from deterministicShuffle_total [OF Some]
    obtain arr cs where "deterministicShuffle p (split s0) ?key = (Inr arr, cs)" by blast
    with Inr show ?thesis
      by (simp add: generatePassword_unfold [OF Some assms] Let_def)
  qed
qed

subsection \<open>Replaying a run with another provider\<close>

lemma String_of_subtle: "String_of (p\<lparr>subtle := x\<rparr>) n = String_of p n"
  by (cases n) simp_all

lemma normText_subtle: "normText (p\<lparr>subtle := x\<rparr>) t = normText p t"
  by (simp add: normText_def)

lemma shuffle_step_replay:
  assumes "subtle p = Some s" "shuffle_step p keyBytes i st = (r, cs)"
    "\<forall>c\<in>set cs. respond s' c = respond s c"
  shows "shuffle_step (p\<lparr>subtle := Some s'\<rparr>) keyBytes i st = (r, cs)"
proof -
  obtain q j arr nan where st: "st = (q, j, arr, nan)" by (rule prod_cases4)
  have s': "subtle (p\<lparr>subtle := Some s'\<rparr>) = Some s'" by simp
  show ?thesis
  proof (cases "length q \<le> j")
    case True
    from assms(2) True have cs: "cs = [Sign keyBytes (concatBytes [q, encode p (lit ''shuffle-next'')])]"
      by (auto simp: st shuffle_step_def hmacSha256_Some [OF assms(1)] await_Inr resolve_def)
    with assms(3) have "sign s' keyBytes (concatBytes [q, encode p (lit ''shuffle-next'')])
        = sign s keyBytes (concatBytes [q, encode p (lit ''shuffle-next'')])"
      by simp
    with assms(2) True show ?thesis
      by (simp add: st shuffle_step_def hmacSha256_Some [OF assms(1)] hmacSha256_Some [OF s']
          await_Inr resolve_def)
  next
    case False
    with assms(2) show ?thesis
      by (simp add: st shuffle_step_def await_Inr resolve_def)
  qed
qed

lemma shuffle_loop_replay:
  assumes "subtle p = Some s"
  shows "shuffle_loop p keyBytes n st = (r, cs) \<Longrightarrow> \<forall>c\<in>set cs. respond s' c = respond s c \<Longrightarrow>
         shuffle_loop (p\<lparr>subtle := Some s'\<rparr>) keyBytes n st = (r, cs)"
proof (induction n arbitrary: st r cs)
  case 0
  then show ?case by simp
next
  case (Suc n)
  from shuffle_step_total [OF assms]
  obtain x cs1 where st: "shuffle_step p keyBytes (Suc n) st = (Inr x, cs1)" by blast
  obtain r2 cs2 where lp: "shuffle_loop p keyBytes n x = (r2, cs2)" by (cases "shuffle_loop p keyBytes n x")
  from Suc.prems(1) st lp have eq: "r = r2" "cs = cs1 @ cs2" by (simp_all add: await_Inr)
  with Suc.prems(2) have a1: "\<forall>c\<in>set cs1. respond s' c = respond s c"
    and a2: "\<forall>c\<in>set cs2. respond s' c = respond s c" by simp_all
  from shuffle_step_replay [OF assms st a1]
  have "shuffle_step (p\<lparr>subtle := Some s'\<rparr>) keyBytes (Suc n) st = (Inr x, cs1)" .
  moreover from Suc.IH [OF lp a2]
  have "shuffle_loop (p\<lparr>subtle := Some s'\<rparr>) keyBytes n x = (r2, cs2)" .
  ultimately show ?case using eq by (simp add: await_Inr)
qed

lemma deterministicShuffle_replay:
  assumes "subtle p = Some s" "deterministicShuffle p arr keyBytes = (r, cs)"
    "\<forall>c\<in>set cs. respond s' c = respond s c"
  shows "deterministicShuffle (p\<lparr>subtle := Some s'\<rparr>) arr keyBytes = (r, cs)"
proof -
  have s': "subtle (p\<lparr>subtle := Some s'\<rparr>) = Some s'" by simp
  let ?msg = "encode p (lit ''shuffle-v1'')"
  obtain r2 cs2 where lp: "shuffle_loop p keyBytes (length arr - 1) (sign s keyBytes ?msg, 0, arr, None)
      = (r2, cs2)" by (cases "shuffle_loop p keyBytes (length arr - 1) (sign s keyBytes ?msg, 0, arr, None)")
  from assms(2) lp have cs: "cs = Sign keyBytes ?msg # cs2"
    by (auto simp: deterministicShuffle_def hmacSha256_Some [OF assms(1)] await_Inr await_def
        resolve_def split: sum.splits prod.splits)
  with assms(3) have sg: "sign s' keyBytes ?msg = sign s keyBytes ?msg"
    and a2: "\<forall>c\<in>set cs2. respond s' c = respond s c" by simp_all
  from shuffle_loop_replay [OF assms(1) lp a2]
  have lp': "shuffle_loop (p\<lparr>subtle := Some s'\<rparr>) keyBytes (length arr - 1)
      (sign s keyBytes ?msg, 0, arr, None) = (r2, cs2)" .
  have "deterministicShuffle (p\<lparr>subtle := Some s'\<rparr>) arr keyBytes
      = deterministicShuffle p arr keyBytes"
    using lp lp'
    by (simp add: deterministicShuffle_def hmacSha256_Some [OF assms(1)]
        hmacSha256_Some [OF s'] sg await_Inr)
  with assms(2) show ?thesis by simp
qed

lemma generatePassword_replay:
  assumes "subtle p = Some s"
    and "\<forall>c\<in>set (snd (generatePassword p m n opts)). respond s' c = respond s c"
  shows "generatePassword (p\<lparr>subtle := Some s'\<rparr>) m n opts = generatePassword p m n opts"
proof (cases "nullish (opt_iterations opts) 600000 < 100000")
  case True
  then show ?thesis by (simp add: generatePassword_low_iterations)
next
  case False
  then have it: "100000 \<le> nullish (opt_iterations opts) 600000" by simp
  have s': "subtle (p\<lparr>subtle := Some s'\<rparr>) = Some s'" by simp
  let ?len = "nullish (opt_length opts) (Finite 20)"
  let ?its = "nullish (opt_iterations opts) 600000"
  let ?payload = "encode p (lit ''pwgen-salt-v1'' @ lit ''|''
     @ normText p (nullish (opt_context opts) []) @ lit ''|'' @ normText p (String_of p n))"
  let ?password = "encode p (normText p m)"
  let ?bits = "max_num (Finite 512) (mul_num ?len 16)"
  let ?salt = "take 16 (digest s ?payload)"
  let ?key = "deriveBits s ?password ?salt ?its ?bits"
  let ?calls = "[Digest ?payload, DeriveBits ?password ?salt ?its ?bits]"
  have gp: "generatePassword p m n opts =
     (case mapBytesToPassword (capacity p) ?key ?len of
        Inl e \<Rightarrow> (Inl e, ?calls)
      | Inr s0 \<Rightarrow>
          (case deterministicShuffle p (split s0) ?key of
             (Inl e, cs) \<Rightarrow> (Inl e, ?calls @ cs)
           | (Inr arr, cs) \<Rightarrow> (Inr (join (slice0 arr ?len)), ?calls @ cs)))"
    by (simp add: generatePassword_unfold [OF assms(1) it] Let_def)
  have "set ?calls \<subseteq> set (snd (generatePassword p m n opts))"
    by (auto simp: gp split: sum.splits prod.splits)
  with assms(2) have "\<forall>c\<in>set ?calls. respond s' c = respond s c" by blast
  then have d: "digest s' ?payload = digest s ?payload"
    and k: "deriveBits s' ?password ?salt ?its ?bits = ?key"
    by simp_all
  have "generatePassword (p\<lparr>subtle := Some s'\<rparr>) m n opts =
     (case mapBytesToPassword (capacity p)
             (deriveBits s' ?password (take 16 (digest s' ?payload)) ?its ?bits) ?len of
        Inl e \<Rightarrow> (Inl e, [Digest ?payload,
                           DeriveBits ?password (take 16 (digest s' ?payload)) ?its ?bits])
      | Inr s0 \<Rightarrow>
          (case deterministicShuffle (p\<lparr>subtle := Some s'\<rparr>) (split s0)
                  (deriveBits s' ?password (take 16 (digest s' ?payload)) ?its ?bits) of
             (Inl e, cs) \<Rightarrow> (Inl e, [Digest ?payload,
                           DeriveBits ?password (take 16 (digest s' ?payload)) ?its ?bits] @ cs)
           | (Inr arr, cs) \<Rightarrow> (Inr (join (slice0 arr ?len)), [Digest ?payload,
                           DeriveBits ?password (take 16 (digest s' ?payload)) ?its ?bits] @ cs)))"
    using it
    by (simp add: generatePassword_unfold [OF s'] Let_def normText_subtle String_of_subtle)
  then have gp': "generatePassword (p\<lparr>subtle := Some s'\<rparr>) m n opts =
     (case mapBytesToPassword (capacity p) ?key ?len of
        Inl e \<Rightarrow> (Inl e, ?calls)
      | Inr s0 \<Rightarrow>
          (case deterministicShuffle (p\<lparr>subtle := Some s'\<rparr>) (split s0) ?key of
             (Inl e, cs) \<Rightarrow> (Inl e, ?calls @ cs)
           | (Inr arr, cs) \<Rightarrow> (Inr (join (slice0 arr ?len)), ?calls @ cs)))"
    unfolding d k .
  show ?thesis
  proof (cases "mapBytesToPassword (capacity p) ?key ?len")
    case (Inl e)
    then show ?thesis by (simp add: gp gp')
  next
    case (Inr s0)
    obtain rr cs where sh: "deterministicShuffle p (split s0) ?key = (rr, cs)"
      by (cases "deterministicShuffle p (split s0) ?key")
    with Inr have "set cs \<subseteq> set (snd (generatePassword p m n opts))"
      by (auto simp: gp split: sum.splits)
    with assms(2) have "\<forall>c\<in>set cs. respond s' c = respond s c" by blast
    from deterministicShuffle_replay [OF assms(1) sh this]
    have "deterministicShuffle (p\<lparr>subtle := Some s'\<rparr>) (split s0) ?key = (rr, cs)" .
    with Inr sh show ?thesis by (simp add: gp gp')
  qed
qed

subsection \<open>The demonstration host\<close>

lemma subtle_demo: "subtle demo = Some demo_subtle"
  by (simp add: demo_def)

lemma capacity_demo: "capacity demo = 2 ^ 28 - 1"
  by (simp add: demo_def)

lemma host_ok_demo: "host_ok demo"
  by (simp add: host_ok_def demo_def demo_subtle_def)

lemma bits_demo:
  "max_num (Finite 512) (mul_num (Finite 8) 16) = Finite 512"
  "max_num (Finite 512) (mul_num (Finite (17 / 2)) 16) = Finite 512"
  by (simp_all add: mul_num.simps max_num.simps MAX_VALUE_def)

lemma empty_salt:
  "deterministicSalt demo [] (Finite 1) =
     (Inr [16, 17, 18, 19, 20, 21, 22, 23, 24, 25, 26, 27, 28, 29, 30, 31],
      [Digest [112, 119, 103, 101, 110, 45, 115, 97, 108, 116, 45, 118, 49, 124, 124, 49]])"
  by code_simp

lemma golden_salt:
  "deterministicSalt demo (lit ''example.com'') (Finite 1) =
     (Inr [27, 28, 29, 30, 31, 32, 33, 34, 35, 36, 37, 38, 39, 40, 41, 42],
      [Digest [112, 119, 103, 101, 110, 45, 115, 97, 108, 116, 45, 118, 49, 124, 101,
               120, 97, 109, 112, 108, 101, 46, 99, 111, 109, 124, 49]])"
  by code_simp

lemma golden_key:
  "pbkdf2 demo (lit ''correct horse battery staple'')
     [27, 28, 29, 30, 31, 32, 33, 34, 35, 36, 37, 38, 39, 40, 41, 42] 100000 (Finite 512) =
     (Inr [44, 81, 118, 155, 192, 229, 10, 47, 84, 121, 158, 195, 232, 13, 50, 87,
           124, 161, 198, 235, 16, 53, 90, 127, 164, 201, 238, 19, 56, 93, 130, 167,
           204, 241, 22, 59, 96, 133, 170, 207, 244, 25, 62, 99, 136, 173, 210, 247,
           28, 65, 102, 139, 176, 213, 250, 31, 68, 105, 142, 179, 216, 253, 34, 71],
      [DeriveBits [99, 111, 114, 114, 101, 99, 116, 32, 104, 111, 114, 115, 101, 32, 98,
                   97, 116, 116, 101, 114, 121, 32, 115, 116, 97, 112, 108, 101]
         [27, 28, 29, 30, 31, 32, 33, 34, 35, 36, 37, 38, 39, 40, 41, 42] 100000 (Finite 512)])"
  by code_simp


text \<open>The run of the repeatability example at length 8.\<close>

lemma demo_run_golden:
  "generatePassword demo (lit ''correct horse battery staple'') (Finite 1)
     \<lparr>opt_context = Some (lit ''example.com''), opt_length = Some (Finite 8),
      opt_iterations = Some 100000\<rparr>
   = (Inr '',ZDVsko8'',
      [Digest [112, 119, 103, 101, 110, 45, 115, 97, 108, 116, 45, 118, 49, 124, 101,
               120, 97, 109, 112, 108, 101, 46, 99, 111, 109, 124, 49],
       DeriveBits [99, 111, 114, 114, 101, 99, 116, 32, 104, 111, 114, 115, 101, 32, 98,
                   97, 116, 116, 101, 114, 121, 32, 115, 116, 97, 112, 108, 101]
         [27, 28, 29, 30, 31, 32, 33, 34, 35, 36, 37, 38, 39, 40, 41, 42] 100000 (Finite 512),
       Sign [44, 81, 118, 155, 192, 229, 10, 47, 84, 121, 158, 195, 232, 13, 50, 87,
             124, 161, 198, 235, 16, 53, 90, 127, 164, 201, 238, 19, 56, 93, 130, 167,
             204, 241, 22, 59, 96, 133, 170, 207, 244, 25, 62, 99, 136, 173, 210, 247,
             28, 65, 102, 139, 176, 213, 250, 31, 68, 105, 142, 179, 216, 253, 34, 71]
            [115, 104, 117, 102, 102, 108, 101, 45, 118, 49]])"
proof -
  let ?key = "[44, 81, 118, 155, 192, 229, 10, 47, 84, 121, 158, 195, 232, 13, 50, 87,
             124, 161, 198, 235, 16, 53, 90, 127, 164, 201, 238, 19, 56, 93, 130, 167,
             204, 241, 22, 59, 96, 133, 170, 207, 244, 25, 62, 99, 136, 173, 210, 247,
             28, 65, 102, 139, 176, 213, 250, 31, 68, 105, 142, 179, 216, 253, 34, 71] :: bytes"
  have mapped: "mapBytesToPassword (capacity demo) ?key (Finite 8) = Inr ''sD8,oZkV''"
    by code_simp
  have shuffled: "deterministicShuffle demo (split ''sD8,oZkV'') ?key
      = (Inr (split '',ZDVsko8''), [Sign ?key [115, 104, 117, 102, 102, 108, 101, 45, 118, 49]])"
    by code_simp
  have joined: "join (slice0 (split '',ZDVsko8'') (Finite 8)) = '',ZDVsko8''"
    by code_simp
  show ?thesis
    by (simp add: generatePassword_def nullish_def golden_salt golden_key bits_demo mapped
        shuffled joined await_Inr resolve_def del: slice0.simps)
qed

text \<open>The run with the empty master phrase, the default context and length 8.\<close>

lemma demo_run_empty:
  "generatePassword demo [] (Finite 1)
     \<lparr>opt_context = None, opt_length = Some (Finite 8), opt_iterations = Some 100000\<rparr>
   = (Inr '':xBtq8+0'',
      [Digest [112, 119, 103, 101, 110, 45, 115, 97, 108, 116, 45, 118, 49, 124, 124, 49],
       DeriveBits [] [16, 17, 18, 19, 20, 21, 22, 23, 24, 25, 26, 27, 28, 29, 30, 31] 100000
         (Finite 512),
       Sign [16, 53, 90, 127, 164, 201, 238, 19, 56, 93, 130, 167, 204, 241, 22, 59,
             96, 133, 170, 207, 244, 25, 62, 99, 136, 173, 210, 247, 28, 65, 102, 139,
             176, 213, 250, 31, 68, 105, 142, 179, 216, 253, 34, 71, 108, 145, 182, 219,
             0, 37, 74, 111, 148, 185, 222, 3, 40, 77, 114, 151, 188, 225, 6, 43]
            [115, 104, 117, 102, 102, 108, 101, 45, 118, 49]])"
proof -
  let ?salt = "[16, 17, 18, 19, 20, 21, 22, 23, 24, 25, 26, 27, 28, 29, 30, 31] :: bytes"
  let ?key = "[16, 53, 90, 127, 164, 201, 238, 19, 56, 93, 130, 167, 204, 241, 22, 59,
             96, 133, 170, 207, 244, 25, 62, 99, 136, 173, 210, 247, 28, 65, 102, 139,
             176, 213, 250, 31, 68, 105, 142, 179, 216, 253, 34, 71, 108, 145, 182, 219,
             0, 37, 74, 111, 148, 185, 222, 3, 40, 77, 114, 151, 188, 225, 6, 43] :: bytes"
  have key: "pbkdf2 demo [] ?salt 100000 (Finite 512)
      = (Inr ?key, [DeriveBits [] ?salt 100000 (Finite 512)])"
    by code_simp
  have mapped: "mapBytesToPassword (capacity demo) ?key (Finite 8) = Inr ''qB0:+x8t''"
    by code_simp
  have shuffled: "deterministicShuffle demo (split ''qB0:+x8t'') ?key
      = (Inr (split '':xBtq8+0''), [Sign ?key [115, 104, 117, 102, 102, 108, 101, 45, 118, 49]])"
    by code_simp
  have joined: "join (slice0 (split '':xBtq8+0'') (Finite 8)) = '':xBtq8+0''"
    by code_simp
  show ?thesis
    by (simp add: generatePassword_def nullish_def empty_salt key bits_demo mapped shuffled
        joined await_Inr resolve_def del: slice0.simps)
qed

text \<open>
  With a provider whose HMAC returns no bytes every read of the stream is \<^verbatim>\<open>undefined\<close>,
  and the swaps go through the array's \<^verbatim>\<open>NaN\<close> property: the last slot ends up
  \<^verbatim>\<open>undefined\<close> and one character is left in the property.
\<close>

lemma shuffle_without_stream:
  "fst (deterministicShuffle (demo\<lparr>subtle := Some (demo_subtle\<lparr>sign := \<lambda>key msg. []\<rparr>)\<rparr>)
          (split ''abcd'') [])
   = Inr [Some CHR ''a'', Some CHR ''c'', Some CHR ''d'', None]"
  by code_simp

section \<open>Properties of the generator\<close>

text \<open>
  C1 (determinism). The outcome of \<open>generatePassword\<close> is determined by its declared
  arguments and by what the host's primitives answer to the calls it makes. Take a call
  with a length of at least 8 whose characters the engine's arrays can hold and at least
  100,000 iterations, on a host with working primitives, and a second call with the same
  arguments served by any other provider \<open>s'\<close> of Web Crypto that answers the digest, the key
  derivation and the HMAC calls of the first run as the first provider did (the primitives
  are functions of their inputs): both calls return a password, and it is the same string.
  Nothing else of the provider, and no state left by an earlier call, reaches the result.
\<close>

theorem generatePassword_deterministic:
  assumes "host_ok p" "subtle p = Some s"
    and "8 \<le> r" "\<lceil>r\<rceil> \<le> capacity p" "100000 \<le> iterations"
    and "\<forall>c\<in>set (snd (generatePassword p masterPhrase number
            \<lparr>opt_context = ctx, opt_length = Some (Finite r),
             opt_iterations = Some iterations\<rparr>)).
          respond s' c = respond s c"
  shows "\<exists>pw.
     fst (generatePassword p masterPhrase number
            \<lparr>opt_context = ctx, opt_length = Some (Finite r),
             opt_iterations = Some iterations\<rparr>) = Inr pw
   \<and> fst (generatePassword (p\<lparr>subtle := Some s'\<rparr>) masterPhrase number
            \<lparr>opt_context = ctx, opt_length = Some (Finite r),
             opt_iterations = Some iterations\<rparr>) = Inr pw"
proof -
  let ?opts = "\<lparr>opt_context = ctx, opt_length = Some (Finite r),
             opt_iterations = Some iterations\<rparr>"
  from generatePassword_length [OF assms(1) _ _ assms(3,4), where opts = ?opts
      and m = masterPhrase and n = number] assms(5)
  obtain pw where "fst (generatePassword p masterPhrase number ?opts) = Inr pw"
    by (auto simp: nullish_def)
  moreover from generatePassword_replay [OF assms(2,6)]
  have "generatePassword (p\<lparr>subtle := Some s'\<rparr>) masterPhrase number ?opts
      = generatePassword p masterPhrase number ?opts" .
  ultimately show ?thesis by simp
qed

text \<open>
  An instance: the second provider answers the three calls of the run as the demonstration
  host does and differs from it elsewhere (its digest of the empty message is empty).
\<close>

theorem generatePassword_deterministic_witness:
  "host_ok demo \<and> subtle demo = Some demo_subtle
   \<and> (8 :: rat) \<le> 8 \<and> \<lceil>8 :: rat\<rceil> \<le> capacity demo \<and> (100000 :: int) \<le> 100000
   \<and> sign (demo_subtle\<lparr>digest := \<lambda>d. if length d = 27 then digest demo_subtle d else []\<rparr>)
       = sign demo_subtle
   \<and> deriveBits (demo_subtle\<lparr>digest := \<lambda>d. if length d = 27 then digest demo_subtle d else []\<rparr>)
       = deriveBits demo_subtle
   \<and> digest (demo_subtle\<lparr>digest := \<lambda>d. if length d = 27 then digest demo_subtle d else []\<rparr>)
         [112, 119, 103, 101, 110, 45, 115, 97, 108, 116, 45, 118, 49, 124,
          101, 120, 97, 109, 112, 108, 101, 46, 99, 111, 109, 124, 49]
       = digest demo_subtle
         [112, 119, 103, 101, 110, 45, 115, 97, 108, 116, 45, 118, 49, 124,
          101, 120, 97, 109, 112, 108, 101, 46, 99, 111, 109, 124, 49]
   \<and> digest (demo_subtle\<lparr>digest := \<lambda>d. if length d = 27 then digest demo_subtle d else []\<rparr>) []
       \<noteq> digest demo_subtle []
   \<and> (\<exists>pw.
     fst (generatePassword demo (lit ''correct horse battery staple'') (Finite 1)
            \<lparr>opt_context = Some (lit ''example.com''), opt_length = Some (Finite 8),
             opt_iterations = Some 100000\<rparr>) = Inr pw
   \<and> fst (generatePassword
            (demo\<lparr>subtle := Some (demo_subtle\<lparr>digest :=
                \<lambda>d. if length d = 27 then digest demo_subtle d else []\<rparr>)\<rparr>)
            (lit ''correct horse battery staple'') (Finite 1)
            \<lparr>opt_context = Some (lit ''example.com''), opt_length = Some (Finite 8),
             opt_iterations = Some 100000\<rparr>) = Inr pw)"
proof -
  let ?s' = "demo_subtle\<lparr>digest := \<lambda>d. if length d = 27 then digest demo_subtle d else []\<rparr>"
  have agree: "\<forall>c\<in>set (snd (generatePassword demo (lit ''correct horse battery staple'') (Finite 1)
            \<lparr>opt_context = Some (lit ''example.com''), opt_length = Some (Finite 8),
             opt_iterations = Some 100000\<rparr>)).
          respond ?s' c = respond demo_subtle c"
    by (simp add: demo_run_golden)
  have same: "sign ?s' = sign demo_subtle" "deriveBits ?s' = deriveBits demo_subtle"
    "digest ?s' [112, 119, 103, 101, 110, 45, 115, 97, 108, 116, 45, 118, 49, 124,
          101, 120, 97, 109, 112, 108, 101, 46, 99, 111, 109, 124, 49]
       = digest demo_subtle
         [112, 119, 103, 101, 110, 45, 115, 97, 108, 116, 45, 118, 49, 124,
          101, 120, 97, 109, 112, 108, 101, 46, 99, 111, 109, 124, 49]"
    by simp_all
  have differ: "digest ?s' [] \<noteq> digest demo_subtle []"
    by (simp add: demo_subtle_def)
  have cap: "\<lceil>8 :: rat\<rceil> \<le> capacity demo" by (simp add: capacity_demo)
  from generatePassword_deterministic [OF host_ok_demo subtle_demo _ cap _ agree]
  have "\<exists>pw.
     fst (generatePassword demo (lit ''correct horse battery staple'') (Finite 1)
            \<lparr>opt_context = Some (lit ''example.com''), opt_length = Some (Finite 8),
             opt_iterations = Some 100000\<rparr>) = Inr pw
   \<and> fst (generatePassword (demo\<lparr>subtle := Some ?s'\<rparr>)
            (lit ''correct horse battery staple'') (Finite 1)
            \<lparr>opt_context = Some (lit ''example.com''), opt_length = Some (Finite 8),
             opt_iterations = Some 100000\<rparr>) = Inr pw"
    by simp
  with host_ok_demo subtle_demo cap same differ show ?thesis by simp
qed


text \<open>
  C3 (length invariant). The claim is that for every length of at least 8 the returned
  string has exactly that many characters. A length is a number; at 8.5 the call returns a
  string of 8 characters.
\<close>

theorem length_invariant_counterexample:
  "map_sum id length
     (fst (generatePassword demo (lit ''secret'') (Finite 1)
        \<lparr>opt_context = None, opt_length = Some (Finite (17 / 2)),
         opt_iterations = Some 100000\<rparr>)) = Inr 8
   \<and> rat_of_nat 8 \<noteq> 17 / 2"
proof -
  have "\<lceil>17 / 2 :: rat\<rceil> \<le> capacity demo" by (simp add: capacity_demo)
  from generatePassword_length [OF host_ok_demo _ _ _ this,
      where opts = "\<lparr>opt_context = None, opt_length = Some (Finite (17 / 2)),
         opt_iterations = Some 100000\<rparr>" and m = "lit ''secret''" and n = "Finite 1"]
  obtain pw where "fst (generatePassword demo (lit ''secret'') (Finite 1)
        \<lparr>opt_context = None, opt_length = Some (Finite (17 / 2)),
         opt_iterations = Some 100000\<rparr>) = Inr pw" and "int (length pw) = \<lfloor>17 / 2 :: rat\<rfloor>"
    by (auto simp: nullish_def)
  moreover have "\<lfloor>17 / 2 :: rat\<rfloor> = 8" by (rule floor_unique) simp_all
  ultimately show ?thesis by simp
qed

text \<open>
  C3, for integer lengths. With at least 100,000 iterations on a host with working
  primitives: for every integer length of at least 8 that the engine's arrays can hold,
  \<open>generatePassword\<close> returns a string of exactly that many characters; length 7 fails with
  the validation error; length 8 succeeds, with 8 characters.
\<close>

theorem length_invariant:
  assumes "host_ok p" "100000 \<le> iterations"
  shows "(8 \<le> len \<and> len \<le> capacity p \<longrightarrow>
           (\<exists>pw. fst (generatePassword p masterPhrase number
                    \<lparr>opt_context = ctx, opt_length = Some (Finite (of_int len)),
                     opt_iterations = Some iterations\<rparr>)
                  = Inr pw \<and> int (length pw) = len))
       \<and> fst (generatePassword p masterPhrase number
                \<lparr>opt_context = ctx, opt_length = Some (Finite 7), opt_iterations = Some iterations\<rparr>)
           = Inl ValidationError
       \<and> (8 \<le> capacity p \<longrightarrow>
           (\<exists>pw. fst (generatePassword p masterPhrase number
                    \<lparr>opt_context = ctx, opt_length = Some (Finite 8),
                     opt_iterations = Some iterations\<rparr>)
                  = Inr pw \<and> length pw = 8))"
proof -
  have ok: "\<exists>pw. fst (generatePassword p masterPhrase number
                    \<lparr>opt_context = ctx, opt_length = Some (Finite (of_int k)),
                     opt_iterations = Some iterations\<rparr>)
                  = Inr pw \<and> int (length pw) = k"
    if "8 \<le> k" "k \<le> capacity p" for k
  proof -
    from that have r: "(8 :: rat) \<le> of_int k" "\<lceil>(of_int k :: rat)\<rceil> \<le> capacity p"
      by simp_all
    from generatePassword_length [OF assms(1) _ _ r,
        where opts = "\<lparr>opt_context = ctx, opt_length = Some (Finite (of_int k)),
                     opt_iterations = Some iterations\<rparr>"
          and m = masterPhrase and n = number] assms(2)
    show ?thesis by (simp add: nullish_def)
  qed
  from host_okD [OF assms(1)] obtain s where "subtle p = Some s" by blast
  from generatePassword_short [OF this, where m = masterPhrase and n = number
      and opts = "\<lparr>opt_context = ctx, opt_length = Some (Finite 7),
                   opt_iterations = Some iterations\<rparr>"] assms(2)
  have short: "fst (generatePassword p masterPhrase number
                \<lparr>opt_context = ctx, opt_length = Some (Finite 7), opt_iterations = Some iterations\<rparr>)
           = Inl ValidationError"
    by (simp add: nullish_def Let_def)
  have eight: "\<exists>pw. fst (generatePassword p masterPhrase number
                    \<lparr>opt_context = ctx, opt_length = Some (Finite 8),
                     opt_iterations = Some iterations\<rparr>)
                  = Inr pw \<and> length pw = 8" if "8 \<le> capacity p"
    using ok [of 8] that by simp
  from ok short eight show ?thesis by blast
qed

theorem length_invariant_witness:
  "host_ok demo \<and> (100000::int) \<le> 100000 \<and> (8::int) \<le> 16 \<and> 16 \<le> capacity demo
   \<and> 8 \<le> capacity demo
   \<and> (\<exists>pw. fst (generatePassword demo (lit ''correct horse battery staple'') (Finite 1)
                \<lparr>opt_context = Some (lit ''example.com''), opt_length = Some (Finite (of_int 16)),
                 opt_iterations = Some 100000\<rparr>) = Inr pw \<and> int (length pw) = 16)
   \<and> fst (generatePassword demo (lit ''correct horse battery staple'') (Finite 1)
            \<lparr>opt_context = Some (lit ''example.com''), opt_length = Some (Finite 7),
             opt_iterations = Some 100000\<rparr>) = Inl ValidationError
   \<and> (\<exists>pw. fst (generatePassword demo (lit ''correct horse battery staple'') (Finite 1)
                \<lparr>opt_context = Some (lit ''example.com''), opt_length = Some (Finite 8),
                 opt_iterations = Some 100000\<rparr>) = Inr pw \<and> length pw = 8)"
  using length_invariant [OF host_ok_demo, of 100000 16 "lit ''correct horse battery staple''"
      "Finite 1" "Some (lit ''example.com'')"] host_ok_demo
  by (simp add: capacity_demo)

text \<open>
  C4 (iteration floor). \<open>generatePassword\<close> fails with the configuration error exactly when
  the iteration count is below 100,000; 50,000 fails; 100,000 succeeds when Web Crypto is
  present and the length is at least 8 and within what the engine's arrays can hold; when
  the count is omitted the call does not fail with the configuration error, and key
  derivation runs with 600,000 iterations.
\<close>

theorem iteration_floor:
  "(fst (generatePassword p masterPhrase number opts) = Inl ConfigurationError
      \<longleftrightarrow> nullish (opt_iterations opts) 600000 < 100000)
   \<and> fst (generatePassword p masterPhrase number (opts\<lparr>opt_iterations := Some 50000\<rparr>))
       = Inl ConfigurationError
   \<and> (subtle p \<noteq> None \<and> nullish (opt_length opts) (Finite 20) = Finite r
        \<and> 8 \<le> r \<and> \<lceil>r\<rceil> \<le> capacity p \<longrightarrow>
        (\<exists>pw. fst (generatePassword p masterPhrase number (opts\<lparr>opt_iterations := Some 100000\<rparr>))
               = Inr pw))
   \<and> fst (generatePassword p masterPhrase number (opts\<lparr>opt_iterations := None\<rparr>))
       \<noteq> Inl ConfigurationError
   \<and> (subtle p \<noteq> None \<longrightarrow>
        (\<exists>password salt bits. DeriveBits password salt 600000 bits
           \<in> set (snd (generatePassword p masterPhrase number (opts\<lparr>opt_iterations := None\<rparr>)))))"
proof -
  have floor: "fst (generatePassword p masterPhrase number os) = Inl ConfigurationError
      \<longleftrightarrow> nullish (opt_iterations os) 600000 < 100000" for os
  proof (cases "nullish (opt_iterations os) 600000 < 100000")
    case True
    then show ?thesis by (simp add: generatePassword_low_iterations)
  next
    case False
    then have "100000 \<le> nullish (opt_iterations os) 600000" by simp
    from generatePassword_not_configuration [OF this, of p masterPhrase number] False
    show ?thesis by simp
  qed
  have c2: "fst (generatePassword p masterPhrase number (opts\<lparr>opt_iterations := Some 50000\<rparr>))
       = Inl ConfigurationError"
    by (simp add: floor nullish_def)
  have c3: "\<exists>pw. fst (generatePassword p masterPhrase number (opts\<lparr>opt_iterations := Some 100000\<rparr>))
               = Inr pw"
    if "subtle p \<noteq> None \<and> nullish (opt_length opts) (Finite 20) = Finite r
        \<and> 8 \<le> r \<and> \<lceil>r\<rceil> \<le> capacity p"
  proof -
    from that obtain s where s: "subtle p = Some s" by auto
    from generatePassword_total [OF s, where m = masterPhrase and n = number and r = r
        and opts = "opts\<lparr>opt_iterations := Some 100000\<rparr>"] that
    show ?thesis by (auto simp: nullish_def)
  qed
  have c4: "fst (generatePassword p masterPhrase number (opts\<lparr>opt_iterations := None\<rparr>))
       \<noteq> Inl ConfigurationError"
    by (simp add: floor nullish_def)
  have c5: "\<exists>password salt bits. DeriveBits password salt 600000 bits
           \<in> set (snd (generatePassword p masterPhrase number (opts\<lparr>opt_iterations := None\<rparr>)))"
    if "subtle p \<noteq> None"
  proof -
    from that obtain s where s: "subtle p = Some s" by auto
    from generatePassword_calls [OF s, where m = masterPhrase and n = number
        and opts = "opts\<lparr>opt_iterations := None\<rparr>"]
    obtain r rest payload password salt bits where
      "generatePassword p masterPhrase number (opts\<lparr>opt_iterations := None\<rparr>)
         = (r, Digest payload # DeriveBits password salt 600000 bits # rest)"
      by (auto simp: nullish_def Let_def)
    then show ?thesis by (metis list.set_intros(1,2) snd_conv)
  qed
  from floor c2 c3 c4 c5 show ?thesis by blast
qed

theorem iteration_floor_witness:
  "(fst (generatePassword demo (lit ''correct horse battery staple'') (Finite 1)
          \<lparr>opt_context = Some (lit ''example.com''), opt_length = Some (Finite 16),
           opt_iterations = Some 99999\<rparr>) = Inl ConfigurationError)
   \<and> fst (generatePassword demo (lit ''correct horse battery staple'') (Finite 1)
          \<lparr>opt_context = Some (lit ''example.com''), opt_length = Some (Finite 16),
           opt_iterations = Some 50000\<rparr>) = Inl ConfigurationError
   \<and> subtle demo \<noteq> None \<and> (8 :: rat) \<le> 16 \<and> \<lceil>16 :: rat\<rceil> \<le> capacity demo
   \<and> (\<exists>pw. fst (generatePassword demo (lit ''correct horse battery staple'') (Finite 1)
          \<lparr>opt_context = Some (lit ''example.com''), opt_length = Some (Finite 16),
           opt_iterations = Some 100000\<rparr>) = Inr pw)
   \<and> fst (generatePassword demo (lit ''correct horse battery staple'') (Finite 1)
          \<lparr>opt_context = Some (lit ''example.com''), opt_length = Some (Finite 16),
           opt_iterations = None\<rparr>) \<noteq> Inl ConfigurationError
   \<and> (\<exists>password salt bits. DeriveBits password salt 600000 bits
           \<in> set (snd (generatePassword demo (lit ''correct horse battery staple'') (Finite 1)
          \<lparr>opt_context = Some (lit ''example.com''), opt_length = Some (Finite 16),
           opt_iterations = None\<rparr>)))"
  using iteration_floor [of demo "lit ''correct horse battery staple''" "Finite 1"
      "\<lparr>opt_context = Some (lit ''example.com''), opt_length = Some (Finite 16),
           opt_iterations = Some 99999\<rparr>" 16]
  by (simp add: nullish_def subtle_demo capacity_demo)

text \<open>
  C5 (combined alphabet). The claim gives 30 symbols and a combined alphabet of 92
  characters. The symbol class of the source has 27 characters, so the combined alphabet
  has 89.
\<close>

theorem combined_alphabet_counterexample:
  "length SYMBOLS \<noteq> 30 \<and> length COMBINED \<noteq> 92"
  by (simp add: class_sizes COMBINED_size)

text \<open>
  C5, as the code has it. The four classes have 26, 26, 10 and 27 characters; their
  concatenation, in this order, is the combined alphabet of 89 pairwise different
  characters; for a non-empty key and a length of at least 8 within what the engine's
  arrays can hold, every position \<open>i\<close> from 4 on that is below the length holds, in the
  mapper's output, the combined alphabet's character at the key byte of index
  \<open>i mod keyBytes.length\<close>, reduced modulo 89.
\<close>

theorem combined_alphabet:
  "length LOWER = 26 \<and> length UPPER = 26 \<and> length DIGITS = 10 \<and> length SYMBOLS = 27
   \<and> COMBINED = LOWER @ UPPER @ DIGITS @ SYMBOLS
   \<and> length COMBINED = 89
   \<and> distinct COMBINED
   \<and> (8 \<le> r \<and> \<lceil>r\<rceil> \<le> cap \<and> 4 \<le> i \<and> of_nat i < r \<and> keyBytes \<noteq> [] \<longrightarrow>
        (\<exists>pw. mapBytesToPassword cap keyBytes (Finite r) = Inr pw
           \<and> pw ! i = COMBINED ! (unat (keyBytes ! (i mod length keyBytes)) mod 89)))"
proof -
  have sizes: "length LOWER = 26 \<and> length UPPER = 26 \<and> length DIGITS = 10
      \<and> length SYMBOLS = 27"
    by (simp add: class_sizes)
  have fill: "\<exists>pw. mapBytesToPassword cap keyBytes (Finite r) = Inr pw
           \<and> pw ! i = COMBINED ! (unat (keyBytes ! (i mod length keyBytes)) mod 89)"
    if "8 \<le> r \<and> \<lceil>r\<rceil> \<le> cap \<and> 4 \<le> i \<and> of_nat i < r \<and> keyBytes \<noteq> []"
    using mapBytesToPassword_fill [of r cap i keyBytes] that by (simp add: COMBINED_size)
  from sizes COMBINED_eq COMBINED_size COMBINED_distinct fill show ?thesis by blast
qed

theorem combined_alphabet_witness:
  "(8 :: rat) \<le> 9 \<and> \<lceil>9 :: rat\<rceil> \<le> capacity demo \<and> (4 :: nat) \<le> 5 \<and> (of_nat 5 :: rat) < 9
   \<and> [200, 3, 77 :: byte] \<noteq> []
   \<and> mapBytesToPassword (capacity demo) [200, 3, 77] (Finite 9) = Inr ''sD7_d]wd]''
   \<and> ''sD7_d]wd]'' ! 5 = COMBINED ! (unat ([200, 3, 77 :: byte] ! (5 mod 3)) mod 89)
   \<and> length SYMBOLS = 27 \<and> length COMBINED = 89"
proof -
  have run: "mapBytesToPassword (capacity demo) [200, 3, 77] (Finite 9) = Inr ''sD7_d]wd]''"
    by code_simp
  have pick: "''sD7_d]wd]'' ! 5 = COMBINED ! (unat ([200, 3, 77 :: byte] ! (5 mod 3)) mod 89)"
    by code_simp
  from combined_alphabet [of 9 "capacity demo" 5 "[200, 3, 77]"] run pick
  show ?thesis by (simp add: capacity_demo)
qed

text \<open>
  C6 (empty master phrase). The claim is that a call with an empty master phrase fails
  with the validation error. \<open>generatePassword\<close> has no check of the master phrase: on the
  demonstration host the call with the empty phrase runs the whole pipeline, with the empty
  password handed to key derivation, and returns a password.
\<close>

theorem empty_master_counterexample:
  "generatePassword demo [] (Finite 1)
     \<lparr>opt_context = None, opt_length = Some (Finite 8), opt_iterations = Some 100000\<rparr>
   = (Inr '':xBtq8+0'',
      [Digest [112, 119, 103, 101, 110, 45, 115, 97, 108, 116, 45, 118, 49, 124, 124, 49],
       DeriveBits [] [16, 17, 18, 19, 20, 21, 22, 23, 24, 25, 26, 27, 28, 29, 30, 31]
         100000 (Finite 512),
       Sign [16, 53, 90, 127, 164, 201, 238, 19, 56, 93, 130, 167, 204, 241, 22, 59,
             96, 133, 170, 207, 244, 25, 62, 99, 136, 173, 210, 247, 28, 65, 102, 139,
             176, 213, 250, 31, 68, 105, 142, 179, 216, 253, 34, 71, 108, 145, 182, 219,
             0, 37, 74, 111, 148, 185, 222, 3, 40, 77, 114, 151, 188, 225, 6, 43]
            [115, 104, 117, 102, 102, 108, 101, 45, 118, 49]])"
  by (rule demo_run_empty)

text \<open>
  C6, as the code has it. An empty master phrase is not rejected by \<open>generatePassword\<close>: when
  the phrase is empty after normalisation and trimming, the length is an integer of at
  least 8 that the engine's arrays can hold, the iteration count is at least 100,000 and
  the host's primitives work, the call derives the key from the empty password and returns
  a password of the requested length.
\<close>

theorem empty_master_accepted:
  assumes "host_ok p" "normText p masterPhrase = []" "8 \<le> len" "len \<le> capacity p"
    "100000 \<le> iterations"
  shows "\<exists>pw payload salt bits rest.
     generatePassword p masterPhrase number
       \<lparr>opt_context = ctx, opt_length = Some (Finite (of_int len)),
        opt_iterations = Some iterations\<rparr>
     = (Inr pw, Digest payload # DeriveBits (encode p []) salt iterations bits # rest)
     \<and> int (length pw) = len"
proof -
  let ?opts = "\<lparr>opt_context = ctx, opt_length = Some (Finite (of_int len)),
        opt_iterations = Some iterations\<rparr>"
  from host_okD [OF assms(1)] obtain s where s: "subtle p = Some s" by blast
  from assms(3,4) have r: "(8 :: rat) \<le> of_int len" "\<lceil>(of_int len :: rat)\<rceil> \<le> capacity p"
    by simp_all
  from generatePassword_length [OF assms(1) _ _ r, where opts = ?opts and m = masterPhrase
      and n = number] assms(5)
  obtain pw where pw: "fst (generatePassword p masterPhrase number ?opts) = Inr pw"
    and len: "int (length pw) = len"
    by (auto simp: nullish_def)
  from generatePassword_calls [OF s, where opts = ?opts and m = masterPhrase and n = number]
    assms(5)
  obtain r payload salt bits rest where
    "generatePassword p masterPhrase number ?opts
       = (r, Digest payload # DeriveBits (encode p []) salt iterations bits # rest)"
    by (auto simp: nullish_def Let_def assms(2))
  with pw len show ?thesis by auto
qed

theorem empty_master_accepted_witness:
  "host_ok demo \<and> normText demo (lit ''  '') = [] \<and> (8::int) \<le> 8 \<and> 8 \<le> capacity demo
   \<and> (100000::int) \<le> 100000
   \<and> (\<exists>pw payload salt bits rest.
     generatePassword demo (lit ''  '') (Finite 1)
       \<lparr>opt_context = None, opt_length = Some (Finite (of_int 8)),
        opt_iterations = Some 100000\<rparr>
     = (Inr pw, Digest payload # DeriveBits (encode demo []) salt 100000 bits # rest)
     \<and> int (length pw) = 8)"
proof -
  have n: "normText demo (lit ''  '') = []"
    by (simp add: normText_def demo_def demo_normalize_def lit_def trim_def isWhiteSpace_def)
  have cap: "8 \<le> capacity demo" by (simp add: capacity_demo)
  from empty_master_accepted [OF host_ok_demo n _ cap, of 100000 "Finite 1" None]
    host_ok_demo n cap
  show ?thesis by simp
qed

text \<open>
  C7 (validation order). The claim is that an invalid length fails before the salt is
  computed and before key derivation. In the source only the iteration count is checked up
  front; the length is checked by \<open>mapBytesToPassword\<close>, after both stages: the call with
  length 7 has invoked the digest and the key derivation when it fails.
\<close>

theorem validation_order_counterexample:
  "generatePassword demo (lit ''secret'') (Finite 1)
     \<lparr>opt_context = None, opt_length = Some (Finite 7), opt_iterations = Some 100000\<rparr>
   = (Inl ValidationError,
      [Digest [112, 119, 103, 101, 110, 45, 115, 97, 108, 116, 45, 118, 49, 124, 124, 49],
       DeriveBits [115, 101, 99, 114, 101, 116]
         [16, 17, 18, 19, 20, 21, 22, 23, 24, 25, 26, 27, 28, 29, 30, 31] 100000 (Finite 512)])"
proof -
  let ?salt = "[16, 17, 18, 19, 20, 21, 22, 23, 24, 25, 26, 27, 28, 29, 30, 31] :: bytes"
  have bits: "max_num (Finite 512) (mul_num (Finite 7) 16) = Finite 512"
    by (simp add: mul_num.simps max_num.simps MAX_VALUE_def)
  have key: "\<exists>key. pbkdf2 demo (lit ''secret'') ?salt 100000 (Finite 512)
      = (Inr key, [DeriveBits [115, 101, 99, 114, 101, 116] ?salt 100000 (Finite 512)])"
  proof -
    have "encode demo (normText demo (lit ''secret'')) = [115, 101, 99, 114, 101, 116]"
      by code_simp
    then show ?thesis by (simp add: pbkdf2_Some [OF subtle_demo])
  qed
  then obtain key where "pbkdf2 demo (lit ''secret'') ?salt 100000 (Finite 512)
      = (Inr key, [DeriveBits [115, 101, 99, 114, 101, 116] ?salt 100000 (Finite 512)])" by blast
  then show ?thesis
    by (simp add: generatePassword_def nullish_def empty_salt bits await_Inr
        mapBytesToPassword_def reject_def ValidationError_def)
qed

text \<open>
  C7, as the code has it. The iteration count is validated before any pipeline stage: a
  call with fewer than 100,000 iterations fails with the configuration error and invokes no
  primitive. The length is validated by the mapper: with a valid iteration count and Web
  Crypto present, a call with a length below 8 fails with the validation error after
  exactly one digest (the salt) and one key derivation (of 512 bits), and before the
  shuffle.
\<close>

theorem validation_order:
  "(nullish (opt_iterations opts) 600000 < 100000 \<longrightarrow>
      generatePassword p masterPhrase number opts = (Inl ConfigurationError, []))
   \<and> (100000 \<le> nullish (opt_iterations opts) 600000
        \<and> lt_num (nullish (opt_length opts) (Finite 20)) (Finite 8)
        \<and> subtle p = Some s \<longrightarrow>
      generatePassword p masterPhrase number opts =
        (let payload = encode p (lit ''pwgen-salt-v1'' @ lit ''|''
                         @ normText p (nullish (opt_context opts) [])
                         @ lit ''|'' @ normText p (String_of p number))
         in (Inl ValidationError,
             [Digest payload,
              DeriveBits (encode p (normText p masterPhrase)) (take 16 (digest s payload))
                (nullish (opt_iterations opts) 600000) (Finite 512)])))"
  using generatePassword_low_iterations [of opts p masterPhrase number]
    generatePassword_short [of p s opts masterPhrase number]
  by blast

theorem validation_order_witness:
  "generatePassword demo (lit ''secret'') (Finite 1)
      \<lparr>opt_context = None, opt_length = Some (Finite 7), opt_iterations = Some 50000\<rparr>
     = (Inl ConfigurationError, [])
   \<and> subtle demo = Some demo_subtle
   \<and> lt_num (Finite 7) (Finite 8)
   \<and> generatePassword demo (lit ''secret'') (Finite 1)
      \<lparr>opt_context = None, opt_length = Some (Finite 7), opt_iterations = Some 100000\<rparr> =
        (let payload = encode demo (lit ''pwgen-salt-v1'' @ lit ''|'' @ normText demo []
                         @ lit ''|'' @ normText demo (String_of demo (Finite 1)))
         in (Inl ValidationError,
             [Digest payload,
              DeriveBits (encode demo (normText demo (lit ''secret'')))
                (take 16 (digest demo_subtle payload)) 100000 (Finite 512)]))"
  using validation_order [of "\<lparr>opt_context = None, opt_length = Some (Finite 7),
        opt_iterations = Some 50000\<rparr>" demo "lit ''secret''" "Finite 1" demo_subtle]
    validation_order [of "\<lparr>opt_context = None, opt_length = Some (Finite 7),
        opt_iterations = Some 100000\<rparr>" demo "lit ''secret''" "Finite 1" demo_subtle]
    subtle_demo
  by (simp add: nullish_def)

text \<open>
  C8 (normalisation form). The claim names canonical composition (NFC). \<open>normText\<close> asks
  the host for compatibility composition (NFKC): on the ligature U+FB01, which NFKC
  replaces by \<open>fi\<close> and NFC keeps, its result is not the trimmed NFC form.
\<close>

theorem normalisation_form_counterexample:
  "normText demo [0xFB01] \<noteq> trim (str_normalize demo NFC [0xFB01])"
  by (simp add: normText_def demo_def demo_normalize_def trim_def isWhiteSpace_def)

text \<open>
  C8, as the code has it. Before use, the master phrase, the context and the string form of
  the rotation number are each normalised to compatibility composition form (NFKC) and
  trimmed: with Web Crypto present and a valid iteration count, the digest that yields the
  salt is taken of \<open>pwgen-salt-v1|context|rotation\<close> built from the normalised and trimmed
  context and rotation string, and key derivation receives the encoding of the normalised
  and trimmed master phrase; a trimmed text that is not empty neither starts nor ends with
  white space.
\<close>

theorem normalisation_form:
  assumes "subtle p = Some s" "100000 \<le> iterations"
  shows "(\<exists>r salt bits rest.
      generatePassword p masterPhrase number
        \<lparr>opt_context = Some ctx, opt_length = len, opt_iterations = Some iterations\<rparr>
      = (r, Digest (encode p (lit ''pwgen-salt-v1'' @ lit ''|''
                      @ trim (str_normalize p NFKC ctx) @ lit ''|''
                      @ trim (str_normalize p NFKC (String_of p number))))
            # DeriveBits (encode p (trim (str_normalize p NFKC masterPhrase))) salt iterations bits
            # rest))
    \<and> (trim (str_normalize p NFKC t) \<noteq> [] \<longrightarrow>
          \<not> isWhiteSpace (hd (trim (str_normalize p NFKC t)))
        \<and> \<not> isWhiteSpace (last (trim (str_normalize p NFKC t))))"
proof -
  let ?opts = "\<lparr>opt_context = Some ctx, opt_length = len, opt_iterations = Some iterations\<rparr>"
  from generatePassword_calls [OF assms(1), where opts = ?opts and m = masterPhrase
      and n = number] assms(2)
  have "\<exists>r salt bits rest.
      generatePassword p masterPhrase number ?opts
      = (r, Digest (encode p (lit ''pwgen-salt-v1'' @ lit ''|''
                      @ trim (str_normalize p NFKC ctx) @ lit ''|''
                      @ trim (str_normalize p NFKC (String_of p number))))
            # DeriveBits (encode p (trim (str_normalize p NFKC masterPhrase))) salt iterations bits
            # rest)"
    by (auto simp: nullish_def Let_def normText_def)
  with trim_ends [of "str_normalize p NFKC t"] show ?thesis by blast
qed

theorem normalisation_form_witness:
  "subtle demo = Some demo_subtle \<and> (100000::int) \<le> 100000
   \<and> (\<exists>r salt bits rest.
      generatePassword demo [0x20, 0xFB01, 0x20] (Finite 1)
        \<lparr>opt_context = Some (lit '' a ''), opt_length = Some (Finite 8),
         opt_iterations = Some 100000\<rparr>
      = (r, Digest (encode demo (lit ''pwgen-salt-v1|a|1''))
            # DeriveBits (encode demo (lit ''fi'')) salt 100000 bits
            # rest))
   \<and> trim (str_normalize demo NFKC [0x20, 0xFB01, 0x20]) = lit ''fi''
   \<and> \<not> isWhiteSpace (hd (lit ''fi'')) \<and> \<not> isWhiteSpace (last (lit ''fi''))"
proof -
  have a: "trim (str_normalize demo NFKC [0x20, 0xFB01, 0x20]) = lit ''fi''"
    by (simp add: demo_def demo_normalize_def trim_def isWhiteSpace_def lit_def)
  have b: "trim (str_normalize demo NFKC (lit '' a '')) = lit ''a''"
    by (simp add: demo_def demo_normalize_def trim_def isWhiteSpace_def lit_def)
  have c: "trim (str_normalize demo NFKC (String_of demo (Finite 1))) = lit ''1''"
    by (simp add: demo_def demo_normalize_def trim_def isWhiteSpace_def lit_def)
  have d: "lit ''pwgen-salt-v1'' @ lit ''|'' @ lit ''a'' @ lit ''|'' @ lit ''1''
             = lit ''pwgen-salt-v1|a|1''"
    by (simp add: lit_def)
  have e: "lit ''fi'' \<noteq> []" by (simp add: lit_def)
  from normalisation_form [OF subtle_demo, of 100000 "[0x20, 0xFB01, 0x20]" "Finite 1"
      "lit '' a ''" "Some (Finite 8)" "[0x20, 0xFB01, 0x20]"]
  show ?thesis by (simp add: a b c d e subtle_demo del: String_of.simps)
qed

text \<open>
  C9 (normalisation equivalence). Two calls whose master phrases, contexts and rotation
  strings agree after NFKC normalisation and trimming have the same outcome (the same
  password or error, and the same calls of the primitives). In particular, white space
  added around the master phrase and around the context does not change the outcome, on a
  host whose NFKC normalisation maps the padded text to the normalised text padded with
  white space.
\<close>

theorem normalisation_equivalence:
  "(normText p m1 = normText p m2 \<and> normText p c1 = normText p c2
      \<and> normText p (String_of p n1) = normText p (String_of p n2) \<longrightarrow>
    generatePassword p m1 n1 \<lparr>opt_context = Some c1, opt_length = len, opt_iterations = its\<rparr>
      = generatePassword p m2 n2 \<lparr>opt_context = Some c2, opt_length = len, opt_iterations = its\<rparr>)
   \<and> (list_all isWhiteSpace (ws @ ws' @ vs @ vs')
      \<and> (\<exists>u u'. list_all isWhiteSpace (u @ u')
            \<and> str_normalize p NFKC (ws @ m @ ws') = u @ str_normalize p NFKC m @ u')
      \<and> (\<exists>u u'. list_all isWhiteSpace (u @ u')
            \<and> str_normalize p NFKC (vs @ c @ vs') = u @ str_normalize p NFKC c @ u') \<longrightarrow>
    generatePassword p (ws @ m @ ws') n
        \<lparr>opt_context = Some (vs @ c @ vs'), opt_length = len, opt_iterations = its\<rparr>
      = generatePassword p m n \<lparr>opt_context = Some c, opt_length = len, opt_iterations = its\<rparr>)"
proof -
  have eqv: "generatePassword p a1 k1 \<lparr>opt_context = Some b1, opt_length = len, opt_iterations = its\<rparr>
      = generatePassword p a2 k2 \<lparr>opt_context = Some b2, opt_length = len, opt_iterations = its\<rparr>"
    if "normText p a1 = normText p a2" "normText p b1 = normText p b2"
      "normText p (String_of p k1) = normText p (String_of p k2)" for a1 a2 b1 b2 k1 k2
    using that
    by (simp add: generatePassword_def deterministicSalt_def pbkdf2_def Let_def nullish_def)
  have pad: "normText p (xs @ t @ xs') = normText p t"
    if "\<exists>u u'. list_all isWhiteSpace (u @ u')
            \<and> str_normalize p NFKC (xs @ t @ xs') = u @ str_normalize p NFKC t @ u'"
    for xs t xs'
  proof -
    from that obtain u u' where "list_all isWhiteSpace u" "list_all isWhiteSpace u'"
      and "str_normalize p NFKC (xs @ t @ xs') = u @ str_normalize p NFKC t @ u'"
      by auto
    then show ?thesis by (simp add: normText_def trim_padded)
  qed
  show ?thesis
  proof (intro conjI impI)
    assume "normText p m1 = normText p m2 \<and> normText p c1 = normText p c2
      \<and> normText p (String_of p n1) = normText p (String_of p n2)"
    then show "generatePassword p m1 n1 \<lparr>opt_context = Some c1, opt_length = len, opt_iterations = its\<rparr>
      = generatePassword p m2 n2 \<lparr>opt_context = Some c2, opt_length = len, opt_iterations = its\<rparr>"
      by (intro eqv) simp_all
  next
    assume h: "list_all isWhiteSpace (ws @ ws' @ vs @ vs')
      \<and> (\<exists>u u'. list_all isWhiteSpace (u @ u')
            \<and> str_normalize p NFKC (ws @ m @ ws') = u @ str_normalize p NFKC m @ u')
      \<and> (\<exists>u u'. list_all isWhiteSpace (u @ u')
            \<and> str_normalize p NFKC (vs @ c @ vs') = u @ str_normalize p NFKC c @ u')"
    then have "normText p (ws @ m @ ws') = normText p m" "normText p (vs @ c @ vs') = normText p c"
      by (simp_all add: pad)
    then show "generatePassword p (ws @ m @ ws') n
        \<lparr>opt_context = Some (vs @ c @ vs'), opt_length = len, opt_iterations = its\<rparr>
      = generatePassword p m n \<lparr>opt_context = Some c, opt_length = len, opt_iterations = its\<rparr>"
      by (intro eqv) simp_all
  qed
qed

theorem normalisation_equivalence_witness:
  "normText demo [0xFB01] = normText demo (lit ''fi'')
   \<and> normText demo (lit '' a'') = normText demo (lit ''a '')
   \<and> normText demo (String_of demo (Finite 1)) = normText demo (String_of demo (Finite 1))
   \<and> generatePassword demo [0xFB01] (Finite 1)
        \<lparr>opt_context = Some (lit '' a''), opt_length = Some (Finite 16),
         opt_iterations = Some 100000\<rparr>
      = generatePassword demo (lit ''fi'') (Finite 1)
        \<lparr>opt_context = Some (lit ''a ''), opt_length = Some (Finite 16),
         opt_iterations = Some 100000\<rparr>
   \<and> list_all isWhiteSpace (lit ''  '' @ [0x0009] @ lit '' '' @ [0x000A])
   \<and> str_normalize demo NFKC (lit ''  '' @ lit ''pass'' @ [0x0009])
        = lit ''  '' @ str_normalize demo NFKC (lit ''pass'') @ [0x0009]
   \<and> str_normalize demo NFKC (lit '' '' @ lit ''site'' @ [0x000A])
        = lit '' '' @ str_normalize demo NFKC (lit ''site'') @ [0x000A]
   \<and> generatePassword demo (lit ''  '' @ lit ''pass'' @ [0x0009]) (Finite 1)
        \<lparr>opt_context = Some (lit '' '' @ lit ''site'' @ [0x000A]), opt_length = Some (Finite 16),
         opt_iterations = Some 100000\<rparr>
      = generatePassword demo (lit ''pass'') (Finite 1)
        \<lparr>opt_context = Some (lit ''site''), opt_length = Some (Finite 16),
         opt_iterations = Some 100000\<rparr>"
proof -
  have n1: "normText demo [0xFB01] = normText demo (lit ''fi'')"
    by (simp add: normText_def demo_def demo_normalize_def lit_def)
  have n2: "normText demo (lit '' a'') = normText demo (lit ''a '')"
    by (simp add: normText_def demo_def demo_normalize_def lit_def trim_def isWhiteSpace_def)
  have w: "list_all isWhiteSpace (lit ''  '' @ [0x0009] @ lit '' '' @ [0x000A])"
    by (simp add: lit_def isWhiteSpace_def)
  have w1: "list_all isWhiteSpace (lit ''  '' @ [0x0009])"
    and w2: "list_all isWhiteSpace (lit '' '' @ [0x000A])"
    by (simp_all add: lit_def isWhiteSpace_def)
  have p1: "str_normalize demo NFKC (lit ''  '' @ lit ''pass'' @ [0x0009])
        = lit ''  '' @ str_normalize demo NFKC (lit ''pass'') @ [0x0009]"
    by (simp add: demo_def demo_normalize_def lit_def)
  have p2: "str_normalize demo NFKC (lit '' '' @ lit ''site'' @ [0x000A])
        = lit '' '' @ str_normalize demo NFKC (lit ''site'') @ [0x000A]"
    by (simp add: demo_def demo_normalize_def lit_def)
  from w1 p1 have e1: "\<exists>u u'. list_all isWhiteSpace (u @ u')
      \<and> str_normalize demo NFKC (lit ''  '' @ lit ''pass'' @ [0x0009])
           = u @ str_normalize demo NFKC (lit ''pass'') @ u'"
    by blast
  from w2 p2 have e2: "\<exists>u u'. list_all isWhiteSpace (u @ u')
      \<and> str_normalize demo NFKC (lit '' '' @ lit ''site'' @ [0x000A])
           = u @ str_normalize demo NFKC (lit ''site'') @ u'"
    by blast
  from normalisation_equivalence [where p = demo and ?m1.0 = "[0xFB01]" and ?m2.0 = "lit ''fi''"
      and ?c1.0 = "lit '' a''" and ?c2.0 = "lit ''a ''" and ?n1.0 = "Finite 1"
      and ?n2.0 = "Finite 1"
      and len = "Some (Finite 16)" and its = "Some 100000"
      and ws = "lit ''  ''" and ws' = "[0x0009]" and vs = "lit '' ''" and vs' = "[0x000A]"
      and m = "lit ''pass''" and c = "lit ''site''" and n = "Finite 1"]
    n1 n2 w e1 e2 p1 p2
  show ?thesis by blast
qed

text \<open>
  C10 (no maximum length). The claim is that every length of at least 8 succeeds. The
  mapper collects the characters in an array, and an array of the engine has a largest
  size: on the demonstration host, whose arrays hold up to \<open>2^28 - 1\<close> elements, the call
  with length \<open>2^28\<close> passes the length check and fails with \<^verbatim>\<open>RangeError\<close> when the array
  cannot grow.
\<close>

theorem no_maximum_length_counterexample:
  "fst (generatePassword demo (lit ''secret'') (Finite 1)
     \<lparr>opt_context = None, opt_length = Some (Finite (2 ^ 28)), opt_iterations = Some 100000\<rparr>)
   = Inl RangeError
   \<and> \<not> lt_num (Finite (2 ^ 28)) (Finite 8)"
proof -
  have big: "lt_num (Finite (of_nat j)) (Finite (2 ^ 28))" if "int j \<le> capacity demo" for j
  proof -
    from that have "int j < 2 ^ 28" by (simp add: capacity_demo)
    then have "(of_int (int j) :: rat) < of_int (2 ^ 28)" by (simp only: of_int_less_iff)
    then show ?thesis by simp
  qed
  have ge: "\<not> lt_num (Finite (2 ^ 28)) (Finite 8)" by simp
  from generatePassword_full [OF subtle_demo, where opts = "\<lparr>opt_context = None,
      opt_length = Some (Finite (2 ^ 28)), opt_iterations = Some 100000\<rparr>"
      and m = "lit ''secret''" and n = "Finite 1"] big ge
  show ?thesis by (simp add: nullish_def)
qed

text \<open>
  C10, as the code has it. The core has no upper bound of its own on the length: with at
  least 100,000 iterations on a host with working primitives, the call fails with the
  validation error exactly when the length is below 8; for every integer length of at
  least 8 that the engine's arrays can hold, and so for every such length above the
  slider's maximum of 120, it returns a string of exactly that many characters; for an
  integer length beyond what the arrays can hold it fails with the engine's \<^verbatim>\<open>RangeError\<close>.
\<close>

theorem no_maximum_length:
  assumes "host_ok p" "100000 \<le> iterations"
  shows "(fst (generatePassword p masterPhrase number
                \<lparr>opt_context = ctx, opt_length = Some len, opt_iterations = Some iterations\<rparr>)
            = Inl ValidationError \<longleftrightarrow> lt_num len (Finite 8))
       \<and> (8 \<le> k \<and> k \<le> capacity p \<longrightarrow>
           (\<exists>pw. fst (generatePassword p masterPhrase number
                    \<lparr>opt_context = ctx, opt_length = Some (Finite (of_int k)),
                     opt_iterations = Some iterations\<rparr>)
                  = Inr pw \<and> int (length pw) = k))
       \<and> (SLIDER_MAX < k \<and> k \<le> capacity p \<longrightarrow>
           (\<exists>pw. fst (generatePassword p masterPhrase number
                    \<lparr>opt_context = ctx, opt_length = Some (Finite (of_int k)),
                     opt_iterations = Some iterations\<rparr>)
                  = Inr pw \<and> int (length pw) = k))
       \<and> (8 \<le> k' \<and> capacity p < k' \<longrightarrow>
           fst (generatePassword p masterPhrase number
                  \<lparr>opt_context = ctx, opt_length = Some (Finite (of_int k')),
                   opt_iterations = Some iterations\<rparr>)
             = Inl RangeError)"
proof -
  from host_okD [OF assms(1)] obtain s where s: "subtle p = Some s" by blast
  from generatePassword_validation [OF s, where m = masterPhrase and n = number
      and opts = "\<lparr>opt_context = ctx, opt_length = Some len, opt_iterations = Some iterations\<rparr>"]
    assms(2)
  have iff: "fst (generatePassword p masterPhrase number
                \<lparr>opt_context = ctx, opt_length = Some len, opt_iterations = Some iterations\<rparr>)
            = Inl ValidationError \<longleftrightarrow> lt_num len (Finite 8)"
    by (simp add: nullish_def)
  have ok: "\<exists>pw. fst (generatePassword p masterPhrase number
                    \<lparr>opt_context = ctx, opt_length = Some (Finite (of_int j)),
                     opt_iterations = Some iterations\<rparr>)
                  = Inr pw \<and> int (length pw) = j"
    if "8 \<le> j" "j \<le> capacity p" for j
  proof -
    from that have r: "(8 :: rat) \<le> of_int j" "\<lceil>(of_int j :: rat)\<rceil> \<le> capacity p"
      by simp_all
    from generatePassword_length [OF assms(1) _ _ r,
        where opts = "\<lparr>opt_context = ctx, opt_length = Some (Finite (of_int j)),
                     opt_iterations = Some iterations\<rparr>"
          and m = masterPhrase and n = number] assms(2)
    show ?thesis by (simp add: nullish_def)
  qed
  have above: "\<exists>pw. fst (generatePassword p masterPhrase number
                    \<lparr>opt_context = ctx, opt_length = Some (Finite (of_int k)),
                     opt_iterations = Some iterations\<rparr>)
                  = Inr pw \<and> int (length pw) = k"
    if "SLIDER_MAX < k" "k \<le> capacity p"
    using ok [of k] that by (simp add: SLIDER_MAX_def)
  have full: "fst (generatePassword p masterPhrase number
                  \<lparr>opt_context = ctx, opt_length = Some (Finite (of_int k')),
                   opt_iterations = Some iterations\<rparr>)
             = Inl RangeError"
    if "8 \<le> k'" "capacity p < k'"
  proof -
    have big: "lt_num (Finite (of_nat j)) (Finite (of_int k'))" if "int j \<le> capacity p" for j
    proof -
      from that \<open>capacity p < k'\<close> have "int j < k'" by simp
      then have "(of_int (int j) :: rat) < of_int k'" by (simp only: of_int_less_iff)
      then show ?thesis by simp
    qed
    from \<open>8 \<le> k'\<close> have ge: "\<not> lt_num (Finite (of_int k')) (Finite 8)" by simp
    from generatePassword_full [OF s, where opts = "\<lparr>opt_context = ctx,
        opt_length = Some (Finite (of_int k')), opt_iterations = Some iterations\<rparr>"
        and m = masterPhrase and n = number] big ge assms(2)
    show ?thesis by (simp add: nullish_def)
  qed
  from iff ok [of k] above full show ?thesis by blast
qed

theorem no_maximum_length_witness:
  "host_ok demo \<and> (100000::int) \<le> 100000
   \<and> (8::int) \<le> 121 \<and> SLIDER_MAX < 121 \<and> 121 \<le> capacity demo
   \<and> (8::int) \<le> 2 ^ 28 \<and> capacity demo < 2 ^ 28
   \<and> (fst (generatePassword demo (lit ''secret'') (Finite 1)
            \<lparr>opt_context = None, opt_length = Some (Finite (15 / 2)),
             opt_iterations = Some 100000\<rparr>)
        = Inl ValidationError) = lt_num (Finite (15 / 2)) (Finite 8)
   \<and> (\<exists>pw. fst (generatePassword demo (lit ''secret'') (Finite 1)
                \<lparr>opt_context = None, opt_length = Some (Finite (of_int 121)),
                 opt_iterations = Some 100000\<rparr>) = Inr pw \<and> int (length pw) = 121)
   \<and> fst (generatePassword demo (lit ''secret'') (Finite 1)
            \<lparr>opt_context = None, opt_length = Some (Finite (of_int (2 ^ 28))),
             opt_iterations = Some 100000\<rparr>) = Inl RangeError"
  using no_maximum_length [OF host_ok_demo, of 100000 "lit ''secret''" "Finite 1" None
      "Finite (15 / 2)" 121 "2 ^ 28"] host_ok_demo
  by (simp add: capacity_demo SLIDER_MAX_def)

end
